theory Spec2Isabelle
  imports Complex_Main
begin

section \<open>Python strings\<close>

text \<open>
  A Python \<open>str\<close> is a sequence of Unicode code points, so it is modelled as a list of
  natural numbers. \<open>ascii\<close> turns an Isabelle string literal into such a list; code points
  above 127 are written as numbers.
\<close>

type_synonym ustr = "nat list"

definition ascii :: "string \<Rightarrow> ustr" where
  "ascii s = map of_char s"

text \<open>
  The characters for which \<open>str.isspace()\<close> holds. Both \<open>str.strip()\<close> and the class
  \<open>\s\<close> of a \<open>str\<close> pattern use this set.
\<close>

definition is_space :: "nat \<Rightarrow> bool" where
  "is_space c \<longleftrightarrow>
     (9 \<le> c \<and> c \<le> 13) \<or> (28 \<le> c \<and> c \<le> 32) \<or> c = 133 \<or> c = 160 \<or> c = 5760
     \<or> (8192 \<le> c \<and> c \<le> 8202) \<or> c = 8232 \<or> c = 8233 \<or> c = 8239 \<or> c = 8287
     \<or> c = 12288"

text \<open>\<open>s.startswith(p)\<close>, returning what follows the prefix.\<close>

fun strip_prefix :: "ustr \<Rightarrow> ustr \<Rightarrow> ustr option" where
  "strip_prefix [] s = Some s"
| "strip_prefix (p # ps) [] = None"
| "strip_prefix (p # ps) (c # cs) = (if p = c then strip_prefix ps cs else None)"

definition startswith :: "ustr \<Rightarrow> ustr \<Rightarrow> bool" where
  "startswith s p \<longleftrightarrow> strip_prefix p s \<noteq> None"

text \<open>\<open>s.strip()\<close>: whitespace is removed from both ends.\<close>

definition strip :: "ustr \<Rightarrow> ustr" where
  "strip s = rev (dropWhile is_space (rev (dropWhile is_space s)))"

lemma strip_prefix_append: "strip_prefix p s = Some r \<Longrightarrow> s = p @ r"
  by (induction p s rule: strip_prefix.induct) (auto split: if_splits)

lemma strip_prefix_length: "strip_prefix p s = Some r \<Longrightarrow> length s = length p + length r"
  by (drule strip_prefix_append) simp

section \<open>Layout normaliser\<close>

text \<open>
  \<open>newline_pattern = re.compile(r"(\n|<br\s*[/]*>){2,}(?!\[)")\<close>.

  \<open>br_tag\<close> matches \<open><br\s*[/]*>\<close> at the start of the string and returns the rest.
  Both stars are greedy, and giving back a character never helps: the character given back
  is a space or a slash, and the next thing the pattern wants is the closing angle
  bracket. So the match is unique when there is one.
\<close>

definition br_tag :: "ustr \<Rightarrow> ustr option" where
  "br_tag s =
     (case strip_prefix (ascii ''<br'') s of
        None \<Rightarrow> None
      | Some r \<Rightarrow>
          (case dropWhile (\<lambda>c. c = 47) (dropWhile is_space r) of
             [] \<Rightarrow> None
           | c # r' \<Rightarrow> if c = 62 then Some r' else None))"

text \<open>The group \<open>(\n|<br\s*[/]*>)\<close>: the alternatives are tried in this order.\<close>

definition newline_or_br :: "ustr \<Rightarrow> ustr option" where
  "newline_or_br s =
     (case s of
        [] \<Rightarrow> None
      | c # r \<Rightarrow> if c = 10 then Some r else br_tag s)"

text \<open>The negative lookahead \<open>(?!\[)\<close>.\<close>

definition not_before_bracket :: "ustr \<Rightarrow> bool" where
  "not_before_bracket s \<longleftrightarrow> (case s of [] \<Rightarrow> True | c # _ \<Rightarrow> c \<noteq> 91)"

lemma dropWhile_length_le: "length (dropWhile P xs) \<le> length xs"
  by (induction xs) auto

lemma br_tag_shorter: "br_tag s = Some r \<Longrightarrow> length r < length s"
proof -
  assume a: "br_tag s = Some r"
  then obtain r0 where r0: "strip_prefix (ascii ''<br'') s = Some r0"
    by (auto simp: br_tag_def split: option.splits)
  with a obtain c where c: "dropWhile (\<lambda>c. c = 47) (dropWhile is_space r0) = c # r"
    by (auto simp: br_tag_def split: option.splits list.splits if_splits)
  have "length (c # r) \<le> length (dropWhile is_space r0)"
    unfolding c [symmetric] by (rule dropWhile_length_le)
  also have "\<dots> \<le> length r0" by (rule dropWhile_length_le)
  finally have "length r < length r0" by simp
  with strip_prefix_length [OF r0] show ?thesis by simp
qed

lemma newline_or_br_shorter: "newline_or_br s = Some r \<Longrightarrow> length r < length s"
  by (auto simp: newline_or_br_def split: list.splits if_splits dest: br_tag_shorter)

text \<open>
  The repetition \<open>{2,}\<close> followed by the lookahead, at a position where \<open>n\<close> repetitions
  have been matched already. The repetition is greedy: one more repetition is tried first,
  and only when everything after it fails does the matcher stop here, which needs two
  repetitions at least and the lookahead to hold. The result is the text after the match.
\<close>

function newline_run :: "nat \<Rightarrow> ustr \<Rightarrow> ustr option" where
  "newline_run n s =
     (case newline_or_br s of
        Some r \<Rightarrow>
          (case newline_run (Suc n) r of
             Some r' \<Rightarrow> Some r'
           | None \<Rightarrow> if 2 \<le> n \<and> not_before_bracket s then Some s else None)
      | None \<Rightarrow> if 2 \<le> n \<and> not_before_bracket s then Some s else None)"
  by pat_completeness auto
termination
  by (relation "measure (\<lambda>(n, s). length s)") (auto dest: newline_or_br_shorter)

declare newline_run.simps [simp del]

lemma newline_run_length: "newline_run n s = Some r \<Longrightarrow> length r \<le> length s"
proof (induction n s arbitrary: r rule: newline_run.induct)
  case (1 n s)
  show ?case
  proof (cases "newline_or_br s")
    case None
    with "1.prems" show ?thesis
      by (subst (asm) newline_run.simps) (auto split: if_splits)
  next
    case (Some r0)
    note r0 = this
    show ?thesis
    proof (cases "newline_run (Suc n) r0")
      case None
      with r0 "1.prems" show ?thesis
        by (subst (asm) newline_run.simps) (auto split: if_splits)
    next
      case (Some r1)
      with r0 "1.prems" have "r = r1"
        by (subst (asm) newline_run.simps) simp
      with "1.IH" [OF r0 Some] newline_or_br_shorter [OF r0] show ?thesis by simp
    qed
  qed
qed

lemma newline_run_0_shorter: "newline_run 0 s = Some r \<Longrightarrow> length r < length s"
proof -
  assume a: "newline_run 0 s = Some r"
  then obtain r0 where r0: "newline_or_br s = Some r0"
    by (subst (asm) newline_run.simps) (auto split: option.splits)
  with a have "newline_run (Suc 0) r0 = Some r"
    by (subst (asm) newline_run.simps) (auto split: option.splits)
  from newline_run_length [OF this] newline_or_br_shorter [OF r0] show ?thesis by simp
qed

text \<open>
  \<open>remove_extra_newlines(s) = newline_pattern.sub("\n", s)\<close>: the string is scanned from
  the left; where the pattern matches, the match is replaced by one newline and the scan
  goes on after it; elsewhere the character is copied. The pattern matches no empty string.
\<close>

function remove_extra_newlines :: "ustr \<Rightarrow> ustr" where
  "remove_extra_newlines [] = []"
| "remove_extra_newlines (c # cs) =
     (case newline_run 0 (c # cs) of
        Some r \<Rightarrow> 10 # remove_extra_newlines r
      | None \<Rightarrow> c # remove_extra_newlines cs)"
  by pat_completeness auto
termination
  by (relation "measure length") (auto dest: newline_run_0_shorter)

section \<open>Documents\<close>

text \<open>
  A parsed document is a tree of elements and strings, as BeautifulSoup builds it. An
  element has a tag name, attributes (in order) and children. A string is a
  \<open>NavigableString\<close> or one of its subclasses; which one matters, since comments are
  skipped by the language splitter and only plain strings and CDATA sections count as text.
\<close>

datatype strkind = NavigableString | Comment | CData | ProcessingInstruction | Declaration | Doctype

type_synonym attrs = "(ustr \<times> ustr) list"

datatype node = Tag ustr attrs "node list" | Str strkind ustr

text \<open>
  What the code can be handed as \<open>lyrics\<close>: an element or a \<open>BeautifulSoup\<close> object (an
  element whose name is \<open>[document]\<close>), a string, or some other Python value.
\<close>

datatype pyobj =
    TagObj ustr attrs "node list"
  | StrObj ustr
  | NoneObj
  | IntObj int
  | BytesObj "nat list"
  | ListObj "pyobj list"

datatype error =
    TypeError | ValueError | KeyError | IndexError
  | ParserRejectedMarkup | UnicodeEncodeError | StructError

text \<open>
  \<open>BeautifulSoup(markup, "html.parser")\<close> is a library call; the parser is a parameter of
  the functions that call it. It gives the children of the new \<open>BeautifulSoup\<close> object, or
  \<open>None\<close> when it refuses the markup: \<open>html.parser\<close> gives up on some texts with an
  \<open>AssertionError\<close>, which the library raises again as \<open>ParserRejectedMarkup\<close>.
\<close>

type_synonym parser = "ustr \<Rightarrow> node list option"

definition soup_of :: "node list \<Rightarrow> pyobj" where
  "soup_of kids = TagObj (ascii ''[document]'') [] kids"

section \<open>Language splitter\<close>

text \<open>
  The first group of both patterns lists what is passed through:
  \<open>\[[^\]\n]+\]\<close> (a section header), \<open>\\n\<close> (a backslash and the letter n),
  \<open>!--![\S\s]*?!__!\<close> (an annotation between its identifiers) and \<open><.*?>\<close> (a tag).
  Each matcher returns the matched text and the rest.
\<close>

text \<open>
  \<open>find_sep sep s\<close>: the text before the first occurrence of \<open>sep\<close> in \<open>s\<close> and the text
  after it.
\<close>

fun find_sep :: "ustr \<Rightarrow> ustr \<Rightarrow> (ustr \<times> ustr) option" where
  "find_sep sep [] = (if sep = [] then Some ([], []) else None)"
| "find_sep sep (c # cs) =
     (case strip_prefix sep (c # cs) of
        Some r \<Rightarrow> Some ([], r)
      | None \<Rightarrow>
          (case find_sep sep cs of
             Some (a, b) \<Rightarrow> Some (c # a, b)
           | None \<Rightarrow> None))"

text \<open>
  \<open>\[[^\]\n]+\]\<close>: the class is greedy and stops at the first \<open>]\<close> or newline, which
  must be a \<open>]\<close>, after one character at least.
\<close>

definition header_token :: "ustr \<Rightarrow> (ustr \<times> ustr) option" where
  "header_token s =
     (case s of
        [] \<Rightarrow> None
      | c # r \<Rightarrow>
          if c \<noteq> 91 then None
          else
            (case dropWhile (\<lambda>x. x \<noteq> 93 \<and> x \<noteq> 10) r of
               [] \<Rightarrow> None
             | d # r' \<Rightarrow>
                 if d = 93 \<and> takeWhile (\<lambda>x. x \<noteq> 93 \<and> x \<noteq> 10) r \<noteq> []
                 then Some (91 # takeWhile (\<lambda>x. x \<noteq> 93 \<and> x \<noteq> 10) r @ [93], r')
                 else None))"

text \<open>\<open>\\n\<close>: the two characters backslash and n.\<close>

definition escaped_newline_token :: "ustr \<Rightarrow> (ustr \<times> ustr) option" where
  "escaped_newline_token s =
     (case strip_prefix [92, 110] s of
        None \<Rightarrow> None
      | Some r \<Rightarrow> Some ([92, 110], r))"

text \<open>
  \<open>\\u200[5c]\<close>: a backslash, the text \<open>u200\<close> and one of \<open>5\<close> and \<open>c\<close>
  (only in the pattern for English lines).
\<close>

definition escaped_u200_token :: "ustr \<Rightarrow> (ustr \<times> ustr) option" where
  "escaped_u200_token s =
     (case strip_prefix (92 # ascii ''u200'') s of
        None \<Rightarrow> None
      | Some r \<Rightarrow>
          (case r of
             [] \<Rightarrow> None
           | d # r' \<Rightarrow>
               if d = 53 \<or> d = 99 then Some (92 # ascii ''u200'' @ [d], r') else None))"

text \<open>
  \<open>!--![\S\s]*?!__!\<close>: the star is lazy and its class holds every character, so the match
  ends at the first \<open>!__!\<close> after the opening identifier.
\<close>

definition annotation_token :: "ustr \<Rightarrow> (ustr \<times> ustr) option" where
  "annotation_token s =
     (case strip_prefix (ascii ''!--!'') s of
        None \<Rightarrow> None
      | Some r \<Rightarrow>
          (case find_sep (ascii ''!__!'') r of
             None \<Rightarrow> None
           | Some (a, b) \<Rightarrow> Some (ascii ''!--!'' @ a @ ascii ''!__!'', b)))"

text \<open>
  \<open><.*?>\<close>: the star is lazy and the dot matches everything but a newline, so the match
  ends at the first \<open>>\<close>, with no newline before it.
\<close>

definition tag_token :: "ustr \<Rightarrow> (ustr \<times> ustr) option" where
  "tag_token s =
     (case s of
        [] \<Rightarrow> None
      | c # r \<Rightarrow>
          if c \<noteq> 60 then None
          else
            (case dropWhile (\<lambda>x. x \<noteq> 62 \<and> x \<noteq> 10) r of
               [] \<Rightarrow> None
             | d # r' \<Rightarrow>
                 if d = 62 then Some (60 # takeWhile (\<lambda>x. x \<noteq> 62 \<and> x \<noteq> 10) r @ [62], r')
                 else None))"

text \<open>First alternative, then the next one.\<close>

definition orelse :: "'a option \<Rightarrow> 'a option \<Rightarrow> 'a option" where
  "orelse a b = (case a of Some x \<Rightarrow> Some x | None \<Rightarrow> b)"

text \<open>Group 1 of \<open>remove_non_english\<close>.\<close>

definition non_english_group :: "ustr \<Rightarrow> (ustr \<times> ustr) option" where
  "non_english_group s =
     orelse (header_token s)
       (orelse (escaped_newline_token s)
          (orelse (annotation_token s) (tag_token s)))"

text \<open>Group 1 of \<open>remove_english\<close>.\<close>

definition english_group :: "ustr \<Rightarrow> (ustr \<times> ustr) option" where
  "english_group s =
     orelse (header_token s)
       (orelse (escaped_newline_token s)
          (orelse (escaped_u200_token s)
             (orelse (annotation_token s) (tag_token s))))"

text \<open>The rest of the line: the dot matches everything but a newline.\<close>

definition line_rest :: "ustr \<Rightarrow> ustr" where
  "line_rest s = takeWhile (\<lambda>x. x \<noteq> 10) s"

definition after_line :: "ustr \<Rightarrow> ustr" where
  "after_line s = dropWhile (\<lambda>x. x \<noteq> 10) s"

definition is_ascii_letter :: "nat \<Rightarrow> bool" where
  "is_ascii_letter c \<longleftrightarrow> (65 \<le> c \<and> c \<le> 90) \<or> (97 \<le> c \<and> c \<le> 122)"

lemma find_sep_length: "find_sep sep s = Some (a, b) \<Longrightarrow> length b \<le> length s"
proof (induction s arbitrary: a b)
  case Nil
  then show ?case by (simp split: if_splits)
next
  case (Cons c cs)
  show ?case
  proof (cases "strip_prefix sep (c # cs)")
    case (Some r)
    with Cons.prems have "b = r" by simp
    with strip_prefix_length [OF Some] show ?thesis by simp
  next
    case None
    with Cons.prems obtain a' where "find_sep sep cs = Some (a', b)"
      by (auto split: option.splits)
    from Cons.IH [OF this] show ?thesis by simp
  qed
qed

lemma header_token_shorter: "header_token s = Some (t, r) \<Longrightarrow> length r < length s"
proof -
  assume a: "header_token s = Some (t, r)"
  then obtain c r0 where s: "s = c # r0" by (cases s) (auto simp: header_token_def)
  with a obtain d where "dropWhile (\<lambda>x. x \<noteq> 93 \<and> x \<noteq> 10) r0 = d # r"
    by (auto simp: header_token_def split: if_splits list.splits)
  then have "length (d # r) \<le> length r0"
    using dropWhile_length_le [of "\<lambda>x. x \<noteq> 93 \<and> x \<noteq> 10" r0] by simp
  with s show ?thesis by simp
qed

lemma escaped_newline_token_shorter:
  "escaped_newline_token s = Some (t, r) \<Longrightarrow> length r < length s"
  by (auto simp: escaped_newline_token_def split: option.splits dest: strip_prefix_length)

lemma escaped_u200_token_shorter:
  "escaped_u200_token s = Some (t, r) \<Longrightarrow> length r < length s"
  by (auto simp: escaped_u200_token_def split: option.splits list.splits if_splits
      dest: strip_prefix_length)

lemma annotation_token_shorter: "annotation_token s = Some (t, r) \<Longrightarrow> length r < length s"
proof -
  assume a: "annotation_token s = Some (t, r)"
  then obtain r0 where r0: "strip_prefix (ascii ''!--!'') s = Some r0"
    by (auto simp: annotation_token_def split: option.splits)
  with a obtain a' where "find_sep (ascii ''!__!'') r0 = Some (a', r)"
    by (auto simp: annotation_token_def split: option.splits)
  from find_sep_length [OF this] strip_prefix_length [OF r0] show ?thesis
    by (simp add: ascii_def)
qed

lemma tag_token_shorter: "tag_token s = Some (t, r) \<Longrightarrow> length r < length s"
proof -
  assume a: "tag_token s = Some (t, r)"
  then obtain c r0 where s: "s = c # r0" by (cases s) (auto simp: tag_token_def)
  with a obtain d where "dropWhile (\<lambda>x. x \<noteq> 62 \<and> x \<noteq> 10) r0 = d # r"
    by (auto simp: tag_token_def split: if_splits list.splits)
  then have "length (d # r) \<le> length r0"
    using dropWhile_length_le [of "\<lambda>x. x \<noteq> 62 \<and> x \<noteq> 10" r0] by simp
  with s show ?thesis by simp
qed

lemma non_english_group_shorter:
  "non_english_group s = Some (t, r) \<Longrightarrow> length r < length s"
  by (auto simp: non_english_group_def orelse_def split: option.splits
      dest: header_token_shorter escaped_newline_token_shorter annotation_token_shorter
        tag_token_shorter)

lemma english_group_shorter:
  "english_group s = Some (t, r) \<Longrightarrow> length r < length s"
  by (auto simp: english_group_def orelse_def split: option.splits
      dest: header_token_shorter escaped_newline_token_shorter escaped_u200_token_shorter
        annotation_token_shorter tag_token_shorter)

lemma after_line_shorter:
  "list_ex P (line_rest (c # cs)) \<Longrightarrow> length (after_line (c # cs)) < Suc (length cs)"
  using dropWhile_length_le [of "\<lambda>x. x \<noteq> 10" cs]
  by (auto simp: line_rest_def after_line_def)

text \<open>
  \<open>remove_non_english.sub("\\1", s, 0)\<close>, the pattern being
  \<open>(\[[^\]\n]+\]|\\n|!--![\S\s]*?!__!|<.*?>)|.*[^\x00-\x7F].*\<close>.
  At each position the group is tried first; its match is replaced by itself. The second
  alternative matches when the rest of the line holds a character above 127, and then it
  matches the whole rest of the line, which is replaced by nothing (group 1 is unset).
  Where neither matches, the character is copied. No alternative matches the empty string.
\<close>

function remove_non_english_sub :: "ustr \<Rightarrow> ustr" where
  "remove_non_english_sub [] = []"
| "remove_non_english_sub (c # cs) =
     (case non_english_group (c # cs) of
        Some (t, r) \<Rightarrow> t @ remove_non_english_sub r
      | None \<Rightarrow>
          if list_ex (\<lambda>x. 127 < x) (line_rest (c # cs))
          then remove_non_english_sub (after_line (c # cs))
          else c # remove_non_english_sub cs)"
  by pat_completeness auto
termination
  by (relation "measure length")
    (auto dest: non_english_group_shorter after_line_shorter)

text \<open>
  \<open>remove_english.sub("\\1", s, 0)\<close>, the pattern being
  \<open>(\[[^\]\n]+\]|\\n|\\u200[5c]|!--![\S\s]*?!__!|<.*?>)|^.*[a-zA-Z]+.*\<close> with
  \<open>re.MULTILINE\<close>. The second alternative needs the position to be the start of a line
  (\<open>bol\<close>: the start of the string, or just after a newline of the string) and a letter in
  the line, which it then matches whole. No match of either alternative ends in a newline,
  so the position after a match is no start of a line.
\<close>

function remove_english_sub :: "bool \<Rightarrow> ustr \<Rightarrow> ustr" where
  "remove_english_sub bol [] = []"
| "remove_english_sub bol (c # cs) =
     (case english_group (c # cs) of
        Some (t, r) \<Rightarrow> t @ remove_english_sub False r
      | None \<Rightarrow>
          if bol \<and> list_ex is_ascii_letter (line_rest (c # cs))
          then remove_english_sub False (after_line (c # cs))
          else c # remove_english_sub (c = 10) cs)"
  by pat_completeness auto
termination
  by (relation "measure (\<lambda>(bol, s). length s)")
    (auto dest: english_group_shorter after_line_shorter)

text \<open>The inner function \<open>string_formatter\<close> of \<open>format_language\<close>.\<close>

definition string_formatter :: "ustr \<Rightarrow> ustr \<Rightarrow> ustr" where
  "string_formatter lyrics_language s =
     remove_extra_newlines
       (if lyrics_language = ascii ''English'' then remove_non_english_sub s
        else if lyrics_language = ascii ''Non-English'' then remove_english_sub True s
        else s)"

text \<open>
  The document branch: every string below the root that is no comment and is not blank is
  replaced by a plain string holding the formatted text.
\<close>

fun format_strings :: "(ustr \<Rightarrow> ustr) \<Rightarrow> node \<Rightarrow> node" where
  "format_strings f (Str k s) =
     (if k \<noteq> Comment \<and> strip s \<noteq> [] then Str NavigableString (f s) else Str k s)"
| "format_strings f (Tag n a kids) = Tag n a (map (format_strings f) kids)"

fun format_language :: "parser \<Rightarrow> pyobj \<Rightarrow> ustr \<Rightarrow> error + pyobj" where
  "format_language html_parser (TagObj n a kids) lyrics_language =
     Inr (TagObj n a (map (format_strings (string_formatter lyrics_language)) kids))"
| "format_language html_parser (StrObj s) lyrics_language =
     (case html_parser (string_formatter lyrics_language s) of
        None \<Rightarrow> Inl ParserRejectedMarkup
      | Some kids \<Rightarrow> Inr (soup_of kids))"
| "format_language html_parser other lyrics_language = Inl TypeError"

section \<open>Snippet matcher\<close>

lemma find_sep_shorter: "find_sep (p # ps) s = Some (a, b) \<Longrightarrow> length b < length s"
proof (induction s arbitrary: a b)
  case Nil
  then show ?case by simp
next
  case (Cons c cs)
  show ?case
  proof (cases "strip_prefix (p # ps) (c # cs)")
    case (Some r)
    with Cons.prems have "b = r" by simp
    with strip_prefix_length [OF Some] show ?thesis by simp
  next
    case None
    with Cons.prems obtain a' where "find_sep (p # ps) cs = Some (a', b)"
      by (auto split: option.splits)
    from Cons.IH [OF this] show ?thesis by simp
  qed
qed

text \<open>
  \<open>s.split(sep)\<close> for the separator \<open>p # ps\<close> (Python refuses an empty separator): the
  pieces between the occurrences of the separator, found from the left. The result is
  never empty.
\<close>

function py_split :: "nat \<Rightarrow> ustr \<Rightarrow> ustr \<Rightarrow> ustr list" where
  "py_split p ps s =
     (case find_sep (p # ps) s of
        None \<Rightarrow> [s]
      | Some (a, b) \<Rightarrow> a # py_split p ps b)"
  by pat_completeness auto
termination
  by (relation "measure (\<lambda>(p, ps, s). length s)") (auto dest: find_sep_shorter)

declare py_split.simps [simp del]

text \<open>\<open>sep.join(xs)\<close>.\<close>

fun join :: "ustr \<Rightarrow> ustr list \<Rightarrow> ustr" where
  "join sep [] = []"
| "join sep [x] = x"
| "join sep (x # y # ys) = x @ sep @ join sep (y # ys)"

text \<open>\<open>p in s\<close> for strings: \<open>p\<close> occurs in \<open>s\<close>.\<close>

fun is_in :: "ustr \<Rightarrow> ustr \<Rightarrow> bool" where
  "is_in p [] \<longleftrightarrow> p = []"
| "is_in p (c # cs) \<longleftrightarrow> startswith (c # cs) p \<or> is_in p cs"

text \<open>
  The test of the inner loop,
  \<open>Levenshtein.ratio(found_line, line) > 0.75 or clean_str(found_line) in clean_str(line)\<close>.
  Both functions come from libraries and are parameters. A Python float is a rational
  number, so the ratio has type \<open>rat\<close>.
\<close>

definition line_matches :: "(ustr \<Rightarrow> ustr \<Rightarrow> rat) \<Rightarrow> (ustr \<Rightarrow> ustr) \<Rightarrow> ustr \<Rightarrow> ustr \<Rightarrow> bool" where
  "line_matches ratio clean_str found_line line \<longleftrightarrow>
     3 / 4 < ratio found_line line \<or> is_in (clean_str found_line) (clean_str line)"

text \<open>The inner loop: is there a candidate that the line matches? It stops at the first.\<close>

fun any_match :: "(ustr \<Rightarrow> ustr \<Rightarrow> bool) \<Rightarrow> ustr list \<Rightarrow> ustr \<Rightarrow> bool" where
  "any_match m [] line = False"
| "any_match m (found_line # rest) line =
     (if m found_line line then True else any_match m rest line)"

text \<open>
  The outer loop over the lines of the lyrics, with \<open>matching_lyrics\<close> as accumulator. After
  each line the loop breaks when as many lines have been collected as there are candidates.
\<close>

fun collect_matches ::
  "(ustr \<Rightarrow> ustr \<Rightarrow> bool) \<Rightarrow> ustr list \<Rightarrow> ustr list \<Rightarrow> ustr list \<Rightarrow> ustr list" where
  "collect_matches m lines [] matching_lyrics = matching_lyrics"
| "collect_matches m lines (line # rest) matching_lyrics =
     (let matching_lyrics' =
        (if any_match m lines line then matching_lyrics @ [line] else matching_lyrics)
      in if length matching_lyrics' = length lines then matching_lyrics'
         else collect_matches m lines rest matching_lyrics')"

definition matching_lines ::
  "(ustr \<Rightarrow> ustr \<Rightarrow> rat) \<Rightarrow> (ustr \<Rightarrow> ustr) \<Rightarrow> ustr list \<Rightarrow> ustr \<Rightarrow> ustr list" where
  "matching_lines ratio clean_str lines lyrics =
     collect_matches (line_matches ratio clean_str) lines (py_split 10 [] lyrics) []"

definition find_matching_lyrics ::
  "(ustr \<Rightarrow> ustr \<Rightarrow> rat) \<Rightarrow> (ustr \<Rightarrow> ustr) \<Rightarrow> ustr list \<Rightarrow> ustr \<Rightarrow> ustr option" where
  "find_matching_lyrics ratio clean_str lines lyrics =
     (let matching_lyrics = matching_lines ratio clean_str lines lyrics
      in if matching_lyrics \<noteq> [] then Some (join [10] matching_lyrics) else None)"

text \<open>
  For the examples, the two library functions. \<open>Levenshtein.ratio(a, b)\<close> is
  \<open>(len(a) + len(b) - d) / (len(a) + len(b))\<close>, and \<open>1.0\<close> for two empty strings, where
  \<open>d\<close> is the edit distance in which an insertion and a deletion cost 1 and a
  substitution costs 2. \<open>clean_str\<close> of lyricsgenius removes punctuation, strips, and
  turns to lower case, then normalises to NFKC, which changes no ASCII text: \<open>clean_str_ascii\<close>
  is that function on ASCII text.
\<close>

fun edit_distance :: "ustr \<Rightarrow> ustr \<Rightarrow> nat" where
  "edit_distance [] ys = length ys"
| "edit_distance (x # xs) [] = Suc (length xs)"
| "edit_distance (x # xs) (y # ys) =
     (if x = y then edit_distance xs ys
      else Suc (min (edit_distance xs (y # ys)) (edit_distance (x # xs) ys)))"

definition levenshtein_ratio :: "ustr \<Rightarrow> ustr \<Rightarrow> rat" where
  "levenshtein_ratio a b =
     (if length a + length b = 0 then 1
      else of_nat (length a + length b - edit_distance a b) / of_nat (length a + length b))"

definition is_punctuation :: "nat \<Rightarrow> bool" where
  "is_punctuation c \<longleftrightarrow>
     (33 \<le> c \<and> c \<le> 47) \<or> (58 \<le> c \<and> c \<le> 64) \<or> (91 \<le> c \<and> c \<le> 96) \<or> (123 \<le> c \<and> c \<le> 126)
     \<or> c = 8217 \<or> c = 8203"

definition clean_str_ascii :: "ustr \<Rightarrow> ustr" where
  "clean_str_ascii s =
     map (\<lambda>c. if 65 \<le> c \<and> c \<le> 90 then c + 32 else c)
       (strip (filter (\<lambda>c. \<not> is_punctuation c) s))"

section \<open>Tag filter\<close>

text \<open>
  \<open>tag.text\<close>: the strings below the element, in document order, joined. Only plain strings
  and CDATA sections are text.
\<close>

fun text_of :: "node \<Rightarrow> ustr" where
  "text_of (Str k s) = (if k = NavigableString \<or> k = CData then s else [])"
| "text_of (Tag n a kids) = concat (map text_of kids)"

text \<open>
  One run of \<open>for tag in soup\<close>. Iterating over an element goes through its children, not
  through everything below it. A string has the name \<open>None\<close>. At the first child that is an
  element with a name not in \<open>supported\<close>, the child is unwrapped (its children take its
  place) when it has text, and then destroyed, and the loop breaks; the result is the new
  list of children. \<open>None\<close> means the loop ran to its end and changed nothing.
\<close>

fun scan_unsupported :: "ustr list \<Rightarrow> node list \<Rightarrow> node list option" where
  "scan_unsupported supported [] = None"
| "scan_unsupported supported (Str k s # rest) =
     map_option ((#) (Str k s)) (scan_unsupported supported rest)"
| "scan_unsupported supported (Tag n a kids # rest) =
     (if n \<notin> set supported
      then Some ((if text_of (Tag n a kids) \<noteq> [] then kids else []) @ rest)
      else map_option ((#) (Tag n a kids)) (scan_unsupported supported rest))"

fun tag_count :: "node \<Rightarrow> nat" where
  "tag_count (Str k s) = 0"
| "tag_count (Tag n a kids) = Suc (sum_list (map tag_count kids))"

lemma scan_unsupported_fewer:
  "scan_unsupported supported xs = Some ys \<Longrightarrow>
     sum_list (map tag_count ys) < sum_list (map tag_count xs)"
  by (induction supported xs arbitrary: ys rule: scan_unsupported.induct)
    (auto split: if_splits)

text \<open>The \<open>while restart\<close> loop, on the children of \<open>soup\<close>.\<close>

function remove_unsupported_tags :: "node list \<Rightarrow> ustr list \<Rightarrow> node list" where
  "remove_unsupported_tags soup supported =
     (case scan_unsupported supported soup of
        Some soup' \<Rightarrow> remove_unsupported_tags soup' supported
      | None \<Rightarrow> soup)"
  by pat_completeness auto
termination
  by (relation "measure (\<lambda>(soup, supported). sum_list (map tag_count soup))")
    (auto dest: scan_unsupported_fewer)

declare remove_unsupported_tags.simps [simp del]

section \<open>Annotation inliner\<close>

text \<open>
  The text that is parsed into the annotation block: between the identifiers, each on a
  line of its own, for the format \<open>zip\<close>, and bare otherwise.
\<close>

definition annotation_content :: "ustr \<times> ustr \<Rightarrow> ustr \<Rightarrow> ustr \<Rightarrow> ustr" where
  "annotation_content identifiers format_type body =
     (if format_type = ascii ''zip''
      then ascii ''<annotation>'' @ [10] @ fst identifiers @ [10] @ body @ [10]
             @ snd identifiers @ [10] @ ascii ''</annotation>''
      else ascii ''<annotation>'' @ body @ ascii ''</annotation>'')"

text \<open>
  The loop \<open>for a in soup.find_all("a")\<close>. \<open>find_all\<close> lists the anchors in document order
  before the loop starts, so the blocks that the loop inserts are not visited, and an
  anchor is visited before the anchors inside it. The loop changes nothing but the
  attributes of the anchor at hand and what follows it among its siblings. So the loop is
  one walk through the tree in document order that carries the list \<open>used\<close>: \<open>inline_node\<close>
  gives the nodes that take the place of a node, \<open>inline_nodes\<close> does a list of siblings.
  \<open>annotation_of\<close> builds the block for an id, or raises.
\<close>

fun inline_node ::
    "(ustr \<Rightarrow> error + node list) \<Rightarrow> ustr list \<Rightarrow> node \<Rightarrow> error + (ustr list \<times> node list)"
  and inline_nodes ::
    "(ustr \<Rightarrow> error + node list) \<Rightarrow> ustr list \<Rightarrow> node list \<Rightarrow> error + (ustr list \<times> node list)"
  where
  "inline_node annotation_of used (Str k s) = Inr (used, [Str k s])"
| "inline_node annotation_of used (Tag n a kids) =
     (if n = ascii ''a'' then
        (case map_of a (ascii ''href'') of
           None \<Rightarrow> Inl KeyError
         | Some annotation_id \<Rightarrow>
             if annotation_id \<in> set used then
               (case inline_nodes annotation_of used kids of
                  Inl e \<Rightarrow> Inl e
                | Inr (used', kids') \<Rightarrow> Inr (used', [Tag n a kids']))
             else
               (case annotation_of annotation_id of
                  Inl e \<Rightarrow> Inl e
                | Inr annotation \<Rightarrow>
                    (case inline_nodes annotation_of (used @ [annotation_id]) kids of
                       Inl e \<Rightarrow> Inl e
                     | Inr (used', kids') \<Rightarrow> Inr (used', Tag n [] kids' # annotation))))
      else
        (case inline_nodes annotation_of used kids of
           Inl e \<Rightarrow> Inl e
         | Inr (used', kids') \<Rightarrow> Inr (used', [Tag n a kids'])))"
| "inline_nodes annotation_of used [] = Inr (used, [])"
| "inline_nodes annotation_of used (x # xs) =
     (case inline_node annotation_of used x of
        Inl e \<Rightarrow> Inl e
      | Inr (used', ys) \<Rightarrow>
          (case inline_nodes annotation_of used' xs of
             Inl e \<Rightarrow> Inl e
           | Inr (used'', zs) \<Rightarrow> Inr (used'', ys @ zs)))"

text \<open>
  \<open>annotations[annotation_id]\<close>, put into the block, parsed, and cleaned by the loop over
  \<open>annotation.descendants\<close>. That loop changes the tree it walks through, and what it then
  visits is decided inside the library; it is the parameter \<open>sanitize\<close>. Inserting a
  \<open>BeautifulSoup\<close> object into a tree inserts its children.
\<close>

definition build_annotation ::
  "parser \<Rightarrow> (node list \<Rightarrow> node list) \<Rightarrow> (ustr \<times> ustr) list \<Rightarrow> ustr \<times> ustr \<Rightarrow> ustr \<Rightarrow> ustr
     \<Rightarrow> error + node list" where
  "build_annotation html_parser sanitize annotations identifiers format_type annotation_id =
     (case map_of annotations annotation_id of
        None \<Rightarrow> Inl KeyError
      | Some body \<Rightarrow>
          (case html_parser (annotation_content identifiers format_type body) of
             None \<Rightarrow> Inl ParserRejectedMarkup
           | Some annotation \<Rightarrow> Inr (sanitize annotation)))"

text \<open>
  \<open>format_annotations\<close> on the parsed lyrics, and on the text of the lyrics. The dictionary
  \<open>annotations\<close> is a list of pairs with distinct keys; it counts as true when it is not empty.
\<close>

definition format_annotations_soup ::
  "parser \<Rightarrow> (node list \<Rightarrow> node list) \<Rightarrow> node list \<Rightarrow> (ustr \<times> ustr) list \<Rightarrow> bool
     \<Rightarrow> ustr \<times> ustr \<Rightarrow> ustr \<Rightarrow> error + node list" where
  "format_annotations_soup html_parser sanitize soup annotations include_annotations
       identifiers format_type =
     (if include_annotations \<and> annotations \<noteq> [] then
        (case inline_nodes
                (build_annotation html_parser sanitize annotations identifiers format_type)
                [] soup of
           Inl e \<Rightarrow> Inl e
         | Inr (used, soup') \<Rightarrow> Inr soup')
      else Inr soup)"

definition format_annotations ::
  "parser \<Rightarrow> (node list \<Rightarrow> node list) \<Rightarrow> ustr \<Rightarrow> (ustr \<times> ustr) list \<Rightarrow> bool
     \<Rightarrow> ustr \<times> ustr \<Rightarrow> ustr \<Rightarrow> error + node list" where
  "format_annotations html_parser sanitize lyrics annotations include_annotations
       identifiers format_type =
     (case html_parser lyrics of
        None \<Rightarrow> Inl ParserRejectedMarkup
      | Some soup \<Rightarrow>
          format_annotations_soup html_parser sanitize soup annotations
            include_annotations identifiers format_type)"

text \<open>
  For the examples: what \<open>html.parser\<close> gives for a text without markup (one string, or
  nothing for the empty text) and for one \<open>annotation\<close> element around such a text, and
  that it refuses a text that starts with a marked section \<open><![name[\<close> whose name is
  none of the keywords it knows (\<open>parse_marked_section\<close> of Python 3.11 raises an
  \<open>AssertionError\<close> there). Other input is outside this sample, which answers with no
  nodes there.
\<close>

definition plain_text :: "ustr \<Rightarrow> bool" where
  "plain_text s \<longleftrightarrow> 60 \<notin> set s \<and> 38 \<notin> set s"

definition text_nodes :: "ustr \<Rightarrow> node list" where
  "text_nodes s = (if s = [] then [] else [Str NavigableString s])"

definition marked_section_keywords :: "ustr list" where
  "marked_section_keywords =
     map ascii [''temp'', ''cdata'', ''ignore'', ''include'', ''rcdata'', ''if'', ''else'', ''endif'']"

definition unknown_marked_section :: "ustr \<Rightarrow> bool" where
  "unknown_marked_section s \<longleftrightarrow>
     (case strip_prefix (ascii ''<!['') s of
        None \<Rightarrow> False
      | Some r \<Rightarrow>
          takeWhile is_ascii_letter r \<noteq> []
          \<and> (case dropWhile is_ascii_letter r of [] \<Rightarrow> False | c # _ \<Rightarrow> c = 91)
          \<and> map (\<lambda>c. if c \<le> 90 then c + 32 else c) (takeWhile is_ascii_letter r)
              \<notin> set marked_section_keywords)"

definition sample_parser :: parser where
  "sample_parser s =
     (if plain_text s then Some (text_nodes s)
      else if unknown_marked_section s then None
      else
        (case strip_prefix (ascii ''<annotation>'') s of
           None \<Rightarrow> Some []
         | Some r \<Rightarrow>
             (case find_sep (ascii ''</annotation>'') r of
                None \<Rightarrow> Some []
              | Some (body, rest) \<Rightarrow>
                  if plain_text body \<and> rest = []
                  then Some [Tag (ascii ''annotation'') [] (text_nodes body)]
                  else Some [])))"

section \<open>Metadata normaliser\<close>

text \<open>
  The fields of the song that the code reads: \<open>song["title"]\<close>,
  \<open>song["primary_artist"]["name"]\<close> and the names in \<open>song["featured_artists"]\<close>.
\<close>

record song =
  title :: ustr
  primary_artist_name :: ustr
  featured_artist_names :: "ustr list"

text \<open>
  \<open>TRANSLATION_PARENTHESES.sub("", s)\<close>, the pattern being \<open>\([\u0600-\u06FF]\)\<close>: an
  opening parenthesis, one character of the Arabic block, a closing parenthesis.
\<close>

fun translation_parentheses_sub :: "ustr \<Rightarrow> ustr" where
  "translation_parentheses_sub (a # b # c # r) =
     (if a = 40 \<and> 1536 \<le> b \<and> b \<le> 1791 \<and> c = 41 then translation_parentheses_sub r
      else a # translation_parentheses_sub (b # c # r))"
| "translation_parentheses_sub s = s"

definition split_amp :: "ustr \<Rightarrow> ustr list" where
  "split_amp s = py_split 32 [38, 32] s"

definition get_song_metadata :: "song \<Rightarrow> error + (ustr \<times> ustr list \<times> ustr list)" where
  "get_song_metadata song =
     (let primary_artists = split_amp (primary_artist_name song);
          featured_artists = featured_artist_names song
      in case primary_artists of
           [] \<Rightarrow> Inl IndexError
         | first # others \<Rightarrow>
             if startswith first (ascii ''Genius'') \<and> featured_artists = [] then
               (case map strip
                       (py_split 45 [] (strip (translation_parentheses_sub (title song)))) of
                  [artists, title'] \<Rightarrow> Inr (title', split_amp artists, featured_artists)
                | _ \<Rightarrow> Inl ValueError)
             else Inr (title song, primary_artists, featured_artists))"

text \<open>\<open>format_title\<close> and \<open>format_filename\<close>.\<close>

definition format_title :: "ustr \<Rightarrow> ustr \<Rightarrow> ustr" where
  "format_title artist title' =
     (if is_in (ascii ''Genius'') artist then title' else artist @ ascii '' - '' @ title')"

text \<open>The pattern \<open>[\\/:*?\"<>|]\<close> is one class of nine characters.\<close>

definition format_filename :: "ustr \<Rightarrow> ustr" where
  "format_filename s =
     filter (\<lambda>c. c \<notin> {92, 47, 58, 42, 63, 34, 60, 62, 124}) s"

section \<open>Archive producer\<close>

record zip_song =
  song_lyrics :: ustr
  song_annotations :: "(ustr \<times> ustr) list"
  song_title :: ustr

record album =
  album_title :: ustr
  artist :: ustr
  songs :: "zip_song list"

record user_data =
  lyrics_lang :: ustr
  include_annotations :: bool

text \<open>The buffer that \<open>create_zip\<close> returns: its name and the entries written, in order.\<close>

record zip_buffer =
  buffer_name :: ustr
  entries :: "(ustr \<times> ustr) list"

text \<open>
  \<open>re.sub(r'.*[\s]*-\s*', '', title)\<close>. \<open>dash_here\<close> is \<open>[\s]*-\s*\<close> at the start of the
  string: the first star takes all the whitespace there is (giving some back leaves a
  whitespace character where the hyphen must be). \<open>dash_from k\<close> is the backtracking of
  \<open>.*\<close>, which has \<open>k\<close> characters to give back and tries the longest match first.
\<close>

definition dash_here :: "ustr \<Rightarrow> ustr option" where
  "dash_here s =
     (case dropWhile is_space s of
        [] \<Rightarrow> None
      | c # r \<Rightarrow> if c = 45 then Some (dropWhile is_space r) else None)"

fun dash_from :: "nat \<Rightarrow> ustr \<Rightarrow> ustr option" where
  "dash_from 0 s = dash_here s"
| "dash_from (Suc k) s = orelse (dash_here (drop (Suc k) s)) (dash_from k s)"

definition artist_prefix_match :: "ustr \<Rightarrow> ustr option" where
  "artist_prefix_match s = dash_from (length (line_rest s)) s"

lemma dash_here_shorter: "dash_here s = Some r \<Longrightarrow> length r < length s"
proof -
  assume "dash_here s = Some r"
  then obtain c r0 where c: "dropWhile is_space s = c # r0" and r: "r = dropWhile is_space r0"
    by (auto simp: dash_here_def split: list.splits if_splits)
  have "length r \<le> length r0" unfolding r by (rule dropWhile_length_le)
  moreover have "length (c # r0) \<le> length s"
    unfolding c [symmetric] by (rule dropWhile_length_le)
  ultimately show ?thesis by simp
qed

lemma dash_from_shorter: "dash_from k s = Some r \<Longrightarrow> length r < length s"
proof (induction k)
  case 0
  then show ?case by (simp add: dash_here_shorter)
next
  case (Suc k)
  show ?case
  proof (cases "dash_here (drop (Suc k) s)")
    case None
    with Suc show ?thesis by (simp add: orelse_def)
  next
    case (Some r')
    with Suc.prems have "r' = r" by (simp add: orelse_def)
    with dash_here_shorter [OF Some] show ?thesis by simp
  qed
qed

function artist_prefix_sub :: "ustr \<Rightarrow> ustr" where
  "artist_prefix_sub [] = []"
| "artist_prefix_sub (c # cs) =
     (case artist_prefix_match (c # cs) of
        Some r \<Rightarrow> artist_prefix_sub r
      | None \<Rightarrow> c # artist_prefix_sub cs)"
  by pat_completeness auto
termination
  by (relation "measure length") (auto simp: artist_prefix_match_def dest: dash_from_shorter)

text \<open>
  \<open>re.sub(r'[\s][\(\[][^\x00-\x7F]+.*[\)\]]', '', title)\<close>: a whitespace character, an
  opening parenthesis or bracket, a character above 127, and then the line up to its last
  closing parenthesis or bracket. (The characters above 127 that the plus takes are
  characters the dot matches too, and none of them closes, so the end of the match does not
  depend on how many the plus takes.)
\<close>

definition is_closer :: "nat \<Rightarrow> bool" where
  "is_closer c \<longleftrightarrow> c = 41 \<or> c = 93"

definition upto_last_closer :: "ustr \<Rightarrow> ustr" where
  "upto_last_closer l = rev (dropWhile (\<lambda>c. \<not> is_closer c) (rev l))"

definition translation_suffix_match :: "ustr \<Rightarrow> ustr option" where
  "translation_suffix_match s =
     (case s of
        w # b # x # r \<Rightarrow>
          if is_space w \<and> (b = 40 \<or> b = 91) \<and> 127 < x \<and> upto_last_closer (line_rest r) \<noteq> []
          then Some (drop (length (upto_last_closer (line_rest r))) r)
          else None
      | _ \<Rightarrow> None)"

lemma translation_suffix_match_shorter:
  "translation_suffix_match s = Some r \<Longrightarrow> length r < length s"
  by (auto simp: translation_suffix_match_def split: list.splits if_splits)

function translation_suffix_sub :: "ustr \<Rightarrow> ustr" where
  "translation_suffix_sub [] = []"
| "translation_suffix_sub (c # cs) =
     (case translation_suffix_match (c # cs) of
        Some r \<Rightarrow> translation_suffix_sub r
      | None \<Rightarrow> c # translation_suffix_sub cs)"
  by pat_completeness auto
termination
  by (relation "measure length") (auto dest: translation_suffix_match_shorter)

text \<open>\<open>str(n)\<close> for a number that is not negative.\<close>

fun str_nat :: "nat \<Rightarrow> ustr" where
  "str_nat n = (if n < 10 then [48 + n] else str_nat (n div 10) @ [48 + n mod 10])"

declare str_nat.simps [simp del]

text \<open>\<open>s.replace('\n', '\r\n')\<close>.\<close>

definition crlf :: "ustr \<Rightarrow> ustr" where
  "crlf s = concat (map (\<lambda>c. if c = 10 then [13, 10] else [c]) s)"

text \<open>
  The module \<open>string_funcs\<close> that \<open>create_zip\<close> calls is not among the sources; its four
  functions are parameters: \<open>sf_format_title\<close>, \<open>sf_format_filename\<close>,
  \<open>sf_format_annotations\<close> and \<open>sf_format_language\<close>. The last two may raise, as their
  namesakes in \<open>utils.py\<close> do.

  The name that the loop computes for the song at index \<open>i\<close> of \<open>enumerate\<close>.
\<close>

definition entry_name :: "(ustr \<Rightarrow> ustr) \<Rightarrow> nat \<Rightarrow> ustr \<Rightarrow> ustr" where
  "entry_name sf_format_filename i song_title' =
     (let title' = sf_format_filename (translation_suffix_sub (artist_prefix_sub song_title'))
      in if i < 9 then ascii ''0'' @ str_nat (i + 1) @ ascii '' - '' @ title' @ ascii ''.txt''
         else str_nat (i + 1) @ ascii '' - '' @ title' @ ascii ''.txt'')"

text \<open>
  \<open>zip_file.writestr(file_name, lyrics)\<close> of the standard library, for two strings. The
  data is encoded as UTF-8 first, which fails on a surrogate code point. \<open>ZipInfo\<close> ends the
  name at its first NUL character (where the path separator is \<open>/\<close>, as assumed here, it
  changes nothing else). The header then needs the name encoded, as ASCII or else as UTF-8,
  and its length in bytes packed into two bytes. The archive is the list of the entries
  written, each with its name and its text.
\<close>

definition is_surrogate :: "nat \<Rightarrow> bool" where
  "is_surrogate c \<longleftrightarrow> 55296 \<le> c \<and> c \<le> 57343"

definition utf8_length :: "ustr \<Rightarrow> nat" where
  "utf8_length s =
     sum_list (map (\<lambda>c. if c < 128 then 1 else if c < 2048 then 2 else if c < 65536 then 3 else 4) s)"

definition zip_writestr ::
  "ustr \<Rightarrow> ustr \<Rightarrow> (ustr \<times> ustr) list \<Rightarrow> error + (ustr \<times> ustr) list" where
  "zip_writestr file_name data zip_file =
     (if list_ex is_surrogate data then Inl UnicodeEncodeError
      else
        (let filename = takeWhile (\<lambda>c. c \<noteq> 0) file_name
         in if list_ex is_surrogate filename then Inl UnicodeEncodeError
            else if 65535 < utf8_length filename then Inl StructError
            else Inr (zip_file @ [(filename, data)])))"

text \<open>The loop over \<open>enumerate(data['songs'])\<close>.\<close>

fun write_songs ::
  "(ustr \<Rightarrow> ustr) \<Rightarrow> (ustr \<Rightarrow> (ustr \<times> ustr) list \<Rightarrow> bool \<Rightarrow> ustr list \<Rightarrow> error + 'doc)
     \<Rightarrow> ('doc \<Rightarrow> ustr \<Rightarrow> error + ustr)
     \<Rightarrow> user_data \<Rightarrow> nat \<Rightarrow> zip_song list \<Rightarrow> (ustr \<times> ustr) list
     \<Rightarrow> error + (ustr \<times> ustr) list" where
  "write_songs sf_format_filename sf_format_annotations sf_format_language ud i [] zip_file =
     Inr zip_file"
| "write_songs sf_format_filename sf_format_annotations sf_format_language ud i (song # rest)
       zip_file =
     (case sf_format_annotations (song_lyrics song) (song_annotations song)
             (include_annotations ud) [ascii ''!--!'', ascii ''!__!''] of
        Inl e \<Rightarrow> Inl e
      | Inr lyrics \<Rightarrow>
          (case sf_format_language lyrics (lyrics_lang ud) of
             Inl e \<Rightarrow> Inl e
           | Inr lyrics' \<Rightarrow>
               (case zip_writestr (entry_name sf_format_filename i (song_title song))
                       (crlf lyrics') zip_file of
                  Inl e \<Rightarrow> Inl e
                | Inr zip_file' \<Rightarrow>
                    write_songs sf_format_filename sf_format_annotations sf_format_language
                      ud (i + 1) rest zip_file')))"

definition create_zip ::
  "(ustr \<Rightarrow> ustr \<Rightarrow> ustr) \<Rightarrow> (ustr \<Rightarrow> ustr)
     \<Rightarrow> (ustr \<Rightarrow> (ustr \<times> ustr) list \<Rightarrow> bool \<Rightarrow> ustr list \<Rightarrow> error + 'doc)
     \<Rightarrow> ('doc \<Rightarrow> ustr \<Rightarrow> error + ustr)
     \<Rightarrow> album \<Rightarrow> user_data \<Rightarrow> error + zip_buffer" where
  "create_zip sf_format_title sf_format_filename sf_format_annotations sf_format_language
       data ud =
     (let full_title = sf_format_title (artist data) (album_title data);
          full_title = sf_format_filename full_title
      in case write_songs sf_format_filename sf_format_annotations sf_format_language
                ud 0 (songs data) [] of
           Inl e \<Rightarrow> Inl e
         | Inr zip_file \<Rightarrow> Inr \<lparr>buffer_name = full_title @ ascii ''.zip'', entries = zip_file\<rparr>)"

section \<open>Properties of the language splitter: kinds of input\<close>

fun is_document :: "pyobj \<Rightarrow> bool" where
  "is_document (TagObj n a kids) = True"
| "is_document other = False"

fun is_string :: "pyobj \<Rightarrow> bool" where
  "is_string (StrObj s) = True"
| "is_string other = False"

fun returns_normally :: "error + 'a \<Rightarrow> bool" where
  "returns_normally (Inr v) = True"
| "returns_normally (Inl e) = False"

text \<open>
  Claim C8, as the code has it. \<open>format_language\<close> raises a type error exactly when
  \<open>lyrics\<close> is neither a document (an element or a \<open>BeautifulSoup\<close> object) nor a
  string. For every document it returns normally. For a string it returns normally exactly
  when the parser accepts the formatted text; when the parser refuses it, the call ends
  with the parser's \<open>ParserRejectedMarkup\<close>. It raises nothing else.
\<close>

theorem format_language_type_error:
  "(format_language html_parser lyrics lyrics_language = Inl TypeError)
     = (\<not> (is_document lyrics \<or> is_string lyrics))
   \<and> (is_document lyrics
      \<longrightarrow> returns_normally (format_language html_parser lyrics lyrics_language))
   \<and> (\<forall>s. lyrics = StrObj s
      \<longrightarrow> returns_normally (format_language html_parser lyrics lyrics_language)
          = (html_parser (string_formatter lyrics_language s) \<noteq> None))
   \<and> (\<not> returns_normally (format_language html_parser lyrics lyrics_language)
      \<longrightarrow> format_language html_parser lyrics lyrics_language = Inl TypeError
          \<or> format_language html_parser lyrics lyrics_language = Inl ParserRejectedMarkup)"
  by (cases lyrics) (auto split: option.splits)

lemma rejected_example_formatted:
  "string_formatter (ascii ''English'') (ascii ''<![foo[bar]]>'') = ascii ''<![foo[bar]]>''"
proof -
  have "remove_non_english_sub (ascii ''<![foo[bar]]>'') = ascii ''<![foo[bar]]>''"
    by (simp add: ascii_def non_english_group_def header_token_def escaped_newline_token_def
        annotation_token_def tag_token_def orelse_def)
  moreover have "remove_extra_newlines (ascii ''<![foo[bar]]>'') = ascii ''<![foo[bar]]>''"
    by (simp add: ascii_def newline_run.simps newline_or_br_def br_tag_def)
  ultimately show ?thesis by (simp add: string_formatter_def)
qed

lemma rejected_example_parser: "sample_parser (ascii ''<![foo[bar]]>'') = None"
  by (simp add: sample_parser_def plain_text_def unknown_marked_section_def
      marked_section_keywords_def is_ascii_letter_def ascii_def)

lemma accepted_example_formatted:
  "string_formatter (ascii ''English'') (ascii ''hi'') = ascii ''hi''"
proof -
  have "remove_non_english_sub (ascii ''hi'') = ascii ''hi''"
    by (simp add: ascii_def non_english_group_def header_token_def escaped_newline_token_def
        annotation_token_def tag_token_def orelse_def line_rest_def)
  moreover have "remove_extra_newlines (ascii ''hi'') = ascii ''hi''"
    by (simp add: ascii_def newline_run.simps newline_or_br_def br_tag_def)
  ultimately show ?thesis by (simp add: string_formatter_def)
qed

lemma accepted_example_parser:
  "sample_parser (ascii ''hi'') = Some [Str NavigableString (ascii ''hi'')]"
  by (simp add: sample_parser_def plain_text_def text_nodes_def ascii_def)

theorem format_language_type_error_witness:
  "is_document (soup_of [Str NavigableString (ascii ''hi'')])
   \<and> returns_normally
       (format_language sample_parser (soup_of [Str NavigableString (ascii ''hi'')])
          (ascii ''English''))
   \<and> returns_normally (format_language sample_parser (StrObj (ascii ''hi'')) (ascii ''English''))
   \<and> \<not> returns_normally (format_language sample_parser (IntObj 3) (ascii ''English''))
   \<and> format_language sample_parser (IntObj 3) (ascii ''English'') = Inl TypeError"
proof -
  have d: "is_document (soup_of [Str NavigableString (ascii ''hi'')])"
    by (simp add: soup_of_def)
  have p: "sample_parser (string_formatter (ascii ''English'') (ascii ''hi'')) \<noteq> None"
    by (simp only: accepted_example_formatted accepted_example_parser) simp
  have i: "\<not> (is_document (IntObj 3) \<or> is_string (IntObj 3))" by simp
  from format_language_type_error
         [of sample_parser "soup_of [Str NavigableString (ascii ''hi'')]" "ascii ''English''"]
       format_language_type_error [of sample_parser "StrObj (ascii ''hi'')" "ascii ''English''"]
       format_language_type_error [of sample_parser "IntObj 3" "ascii ''English''"]
       d p i
  show ?thesis by auto
qed

text \<open>
  Claim C8, as stated, fails for strings: the text \<open><![foo[bar]]>\<close> is a string, the
  formatter leaves it as it is, and the parser refuses it, so the call does not return
  normally. The error is not a type error.
\<close>

theorem format_language_string_rejected_counterexample:
  "is_string (StrObj (ascii ''<![foo[bar]]>''))
   \<and> format_language sample_parser (StrObj (ascii ''<![foo[bar]]>'')) (ascii ''English'')
       = Inl ParserRejectedMarkup
   \<and> \<not> returns_normally
         (format_language sample_parser (StrObj (ascii ''<![foo[bar]]>'')) (ascii ''English''))"
  by (simp only: format_language.simps rejected_example_formatted rejected_example_parser
      is_string.simps option.case returns_normally.simps simp_thms)

section \<open>Properties of the layout normaliser\<close>




















lemma br_tag_suffix: "br_tag t = Some r \<Longrightarrow> \<exists>m. t = m @ r \<and> m \<noteq> []"
proof -
  assume a: "br_tag t = Some r"
  then obtain q where q: "strip_prefix (ascii ''<br'') t = Some q"
    by (auto simp: br_tag_def split: option.splits)
  with a obtain c where c: "dropWhile (\<lambda>c. c = 47) (dropWhile is_space q) = c # r"
    by (auto simp: br_tag_def split: option.splits list.splits if_splits)
  have "q = takeWhile is_space q @ dropWhile is_space q" by simp
  also have "dropWhile is_space q
      = takeWhile (\<lambda>c. c = 47) (dropWhile is_space q) @ c # r"
    using c takeWhile_dropWhile_id [of "\<lambda>c. c = 47" "dropWhile is_space q"] by simp
  finally have "t = (ascii ''<br'' @ takeWhile is_space q
      @ takeWhile (\<lambda>c. c = 47) (dropWhile is_space q) @ [c]) @ r"
    using strip_prefix_append [OF q] by simp
  then show ?thesis by blast
qed

lemma newline_or_br_suffix: "newline_or_br t = Some r \<Longrightarrow> \<exists>m. t = m @ r \<and> m \<noteq> []"
proof (cases t)
  case Nil
  assume "newline_or_br t = Some r"
  with Nil show ?thesis by (simp add: newline_or_br_def)
next
  case (Cons c cs)
  assume a: "newline_or_br t = Some r"
  show ?thesis
  proof (cases "c = 10")
    case True
    with a Cons have "t = [10] @ r" by (simp add: newline_or_br_def)
    then show ?thesis by blast
  next
    case False
    with a Cons have "br_tag t = Some r" by (simp add: newline_or_br_def)
    then show ?thesis by (rule br_tag_suffix)
  qed
qed
























section \<open>Properties of the language splitter: the example\<close>

lemmas token_defs = ascii_def non_english_group_def english_group_def
  header_token_def escaped_newline_token_def escaped_u200_token_def annotation_token_def
  tag_token_def orelse_def line_rest_def after_line_def is_ascii_letter_def

lemmas newline_defs = ascii_def newline_run.simps newline_or_br_def br_tag_def
  not_before_bracket_def is_space_def

lemma english_example_sub:
  "remove_non_english_sub
     (ascii ''Hello'' @ [10] @ ascii ''[Chorus]'' @ [10] @ [1587, 1604, 1575, 1605] @ [10]
        @ ascii ''world'')
   = ascii ''Hello'' @ [10] @ ascii ''[Chorus]'' @ [10, 10] @ ascii ''world''"
  by (simp add: token_defs)

lemma english_example_newlines:
  "remove_extra_newlines (ascii ''Hello'' @ [10] @ ascii ''[Chorus]'' @ [10, 10] @ ascii ''world'')
   = ascii ''Hello'' @ [10] @ ascii ''[Chorus]'' @ [10] @ ascii ''world''"
  by (simp add: newline_defs)

lemma string_formatter_english_example:
  "string_formatter (ascii ''English'')
     (ascii ''Hello'' @ [10] @ ascii ''[Chorus]'' @ [10] @ [1587, 1604, 1575, 1605] @ [10]
        @ ascii ''world'')
   = ascii ''Hello'' @ [10] @ ascii ''[Chorus]'' @ [10] @ ascii ''world''"
  unfolding string_formatter_def
  by (simp only: english_example_sub english_example_newlines if_True refl)

lemma sample_parser_english_example:
  "sample_parser (ascii ''Hello'' @ [10] @ ascii ''[Chorus]'' @ [10] @ ascii ''world'')
   = Some [Str NavigableString
             (ascii ''Hello'' @ [10] @ ascii ''[Chorus]'' @ [10] @ ascii ''world'')]"
  by (simp add: sample_parser_def plain_text_def text_nodes_def ascii_def)

text \<open>
  Claim C5. With the preference \<open>English\<close>, \<open>format_language\<close> turns the string
  \<open>"Hello\n[Chorus]\n"\<close> + four Arabic letters (1587, 1604, 1575, 1605) + \<open>"\nworld"\<close> into
  the document parsed from \<open>"Hello\n[Chorus]\nworld"\<close>: the line that is not ASCII is
  removed, the header stays, and the empty line left behind is collapsed. For a parser that
  turns text without markup into one string, that document is this one string; in general
  it is what the parser makes of that text.
\<close>

theorem format_language_english_example:
  "format_language html_parser
     (StrObj (ascii ''Hello'' @ [10] @ ascii ''[Chorus]'' @ [10] @ [1587, 1604, 1575, 1605]
                @ [10] @ ascii ''world''))
     (ascii ''English'')
   = (case html_parser (ascii ''Hello'' @ [10] @ ascii ''[Chorus]'' @ [10] @ ascii ''world'') of
        None \<Rightarrow> Inl ParserRejectedMarkup
      | Some kids \<Rightarrow> Inr (soup_of kids))
   \<and> format_language sample_parser
     (StrObj (ascii ''Hello'' @ [10] @ ascii ''[Chorus]'' @ [10] @ [1587, 1604, 1575, 1605]
                @ [10] @ ascii ''world''))
     (ascii ''English'')
   = Inr (soup_of [Str NavigableString
            (ascii ''Hello'' @ [10] @ ascii ''[Chorus]'' @ [10] @ ascii ''world'')])"
  by (simp only: format_language.simps string_formatter_english_example
      sample_parser_english_example option.case simp_thms)

section \<open>Properties of the metadata normaliser\<close>

text \<open>
  Claim C4. For the translation stub with the title \<open>"Artist Name - Song Title ("\<close> + five
  Persian letters (1601, 1575, 1585, 1587, 1740) + \<open>")"\<close>, the primary artist
  \<open>Genius Translations\<close> and no featured artist, the claim gives the title \<open>"Song Title"\<close>.
  The code returns the title with the parentheses still in it: the pattern
  \<open>TRANSLATION_PARENTHESES\<close> matches one character between the parentheses only.
\<close>

theorem get_song_metadata_translation_stub:
  "get_song_metadata
     \<lparr>title = ascii ''Artist Name - Song Title ('' @ [1601, 1575, 1585, 1587, 1740] @ ascii '')'',
      primary_artist_name = ascii ''Genius Translations'',
      featured_artist_names = []\<rparr>
   = Inr (ascii ''Song Title ('' @ [1601, 1575, 1585, 1587, 1740] @ ascii '')'',
          [ascii ''Artist Name''], [])"
  by (simp add: get_song_metadata_def split_amp_def py_split.simps startswith_def strip_def
      is_space_def ascii_def)

section \<open>Properties of the snippet matcher\<close>

lemma any_match_list_ex: "any_match m lines line = list_ex (\<lambda>f. m f line) lines"
  by (induction lines) auto

lemma collect_matches_take:
  "length acc < length lines \<Longrightarrow>
   collect_matches m lines ls acc
     = acc @ take (length lines - length acc) (filter (any_match m lines) ls)"
proof (induction ls arbitrary: acc)
  case Nil
  then show ?case by simp
next
  case (Cons l ls)
  show ?case
  proof (cases "any_match m lines l")
    case False
    with Cons show ?thesis by (simp add: Let_def)
  next
    case True
    show ?thesis
    proof (cases "Suc (length acc) = length lines")
      case True
      then have "length lines - length acc = Suc 0" by simp
      with True \<open>any_match m lines l\<close> show ?thesis by (simp add: Let_def)
    next
      case False
      with Cons.prems have lt: "length (acc @ [l]) < length lines" by simp
      have d: "length lines - length acc = Suc (length lines - length (acc @ [l]))"
        using lt by simp
      show ?thesis
        using Cons.IH [OF lt] True False by (simp add: Let_def d del: length_append)
    qed
  qed
qed

lemma collect_matches_no_lines: "collect_matches m [] (l # ls) [] = []"
  by (simp add: Let_def)

lemma py_split_nonempty: "py_split p ps s \<noteq> []"
  by (subst py_split.simps) (simp split: option.splits)

lemma matching_lines_take:
  "matching_lines ratio clean_str lines lyrics
     = take (length lines)
         (filter (\<lambda>line. list_ex (\<lambda>found_line. line_matches ratio clean_str found_line line) lines)
            (py_split 10 [] lyrics))"
proof (cases lines)
  case Nil
  obtain l ls where "py_split 10 [] lyrics = l # ls"
    using py_split_nonempty [of 10 "[]" lyrics] by (cases "py_split 10 [] lyrics") auto
  with Nil show ?thesis by (simp add: matching_lines_def Let_def)
next
  case (Cons a as)
  then have "length ([] :: ustr list) < length lines" by simp
  from collect_matches_take [OF this] show ?thesis
    by (simp add: matching_lines_def any_match_list_ex [abs_def])
qed

text \<open>
  Claim C1, as the code has it. \<open>find_matching_lyrics\<close> never raises. It returns the first
  \<open>len(lines)\<close> lines of the lyrics that match some candidate, joined by newlines, and
  \<open>None\<close> only when there is no such line (or no candidate). Matches that are fewer than
  the candidates are returned, not discarded.
\<close>

theorem find_matching_lyrics_returns_first_matches:
  "find_matching_lyrics ratio clean_str lines lyrics
     = (case take (length lines)
               (filter (\<lambda>line. list_ex (\<lambda>found_line. line_matches ratio clean_str found_line line) lines)
                  (py_split 10 [] lyrics)) of
          [] \<Rightarrow> None
        | m # ms \<Rightarrow> Some (join [10] (m # ms)))"
  by (simp add: find_matching_lyrics_def matching_lines_take Let_def split: list.splits)

lemma c1_matching:
  "matching_lines levenshtein_ratio clean_str_ascii [ascii ''a'', ascii ''zzz''] (ascii ''a'')
     = [ascii ''a'']"
  by (simp add: matching_lines_def py_split.simps ascii_def line_matches_def
      levenshtein_ratio_def Let_def)

text \<open>
  Claim C1, as stated, fails: of the candidates \<open>a\<close> and \<open>zzz\<close>, only the first is found
  in the lyrics \<open>a\<close>, so the count of matched lines (one) never reaches the count of
  candidates (two), and the result is the partial match \<open>a\<close>, not \<open>None\<close>.
\<close>

theorem find_matching_lyrics_partial_counterexample:
  "length (matching_lines levenshtein_ratio clean_str_ascii [ascii ''a'', ascii ''zzz''] (ascii ''a''))
     < length [ascii ''a'', ascii ''zzz'']
   \<and> find_matching_lyrics levenshtein_ratio clean_str_ascii [ascii ''a'', ascii ''zzz''] (ascii ''a'')
     = Some (ascii ''a'')"
  by (simp add: find_matching_lyrics_def c1_matching Let_def)

section \<open>Properties of the metadata normaliser: the precondition on the title\<close>

lemma find_sep_single_other:
  "c \<noteq> p \<Longrightarrow> find_sep [p] (c # cs) = map_option (\<lambda>(a, b). (c # a, b)) (find_sep [p] cs)"
  by (auto split: option.splits)

lemma py_split_single_length: "length (py_split p [] s) = Suc (count_list s p)"
proof (induction s)
  case Nil
  show ?case by (subst py_split.simps) simp
next
  case (Cons c cs)
  show ?case
  proof (cases "c = p")
    case True
    then have "py_split p [] (c # cs) = [] # py_split p [] cs"
      by (subst py_split.simps) simp
    with Cons True show ?thesis by simp
  next
    case False
    have e1: "py_split p [] (c # cs)
        = (case find_sep [p] (c # cs) of None \<Rightarrow> [c # cs] | Some (a, b) \<Rightarrow> a # py_split p [] b)"
      by (rule py_split.simps)
    have e2: "py_split p [] cs
        = (case find_sep [p] cs of None \<Rightarrow> [cs] | Some (a, b) \<Rightarrow> a # py_split p [] b)"
      by (rule py_split.simps)
    have "length (py_split p [] (c # cs)) = length (py_split p [] cs)"
      unfolding e1 e2 find_sep_single_other [OF False]
      by (cases "find_sep [p] cs") auto
    with Cons False show ?thesis by simp
  qed
qed

lemma split_amp_genius:
  "startswith name (ascii ''Genius'') \<Longrightarrow>
   \<exists>first others. split_amp name = first # others \<and> startswith first (ascii ''Genius'')"
proof -
  assume "startswith name (ascii ''Genius'')"
  then obtain r where n: "name = ascii ''Genius'' @ r"
    by (auto simp: startswith_def dest: strip_prefix_append)
  show ?thesis
    unfolding n split_amp_def
    by (subst py_split.simps) (simp add: ascii_def startswith_def split: option.splits)
qed

text \<open>
  Claim C10. For a song whose primary artist name starts with \<open>Genius\<close> and that has no
  featured artist, \<open>get_song_metadata\<close> raises \<open>ValueError\<close> exactly when the title,
  after the translation parentheses are removed and it is stripped, does not hold exactly
  one hyphen (character 45): the split must give two parts to unpack.
\<close>

theorem get_song_metadata_hyphen_precondition:
  assumes "startswith (primary_artist_name song) (ascii ''Genius'')"
    and "featured_artist_names song = []"
  shows "(get_song_metadata song = Inl ValueError)
     = (count_list (strip (translation_parentheses_sub (title song))) 45 \<noteq> 1)"
proof -
  from split_amp_genius [OF assms(1)] obtain first others where
    f: "split_amp (primary_artist_name song) = first # others"
      "startswith first (ascii ''Genius'')" by blast
  have "get_song_metadata song
      = (case map strip (py_split 45 [] (strip (translation_parentheses_sub (title song)))) of
           [artists, title'] \<Rightarrow> Inr (title', split_amp artists, [])
         | _ \<Rightarrow> Inl ValueError)"
    using f assms(2) by (simp add: get_song_metadata_def Let_def)
  also have "(\<dots> = Inl ValueError)
      = (length (map strip (py_split 45 [] (strip (translation_parentheses_sub (title song))))) \<noteq> 2)"
    by (auto split: list.splits)
  finally show ?thesis by (simp add: py_split_single_length)
qed

theorem get_song_metadata_hyphen_precondition_witness:
  "startswith (primary_artist_name
       \<lparr>title = ascii ''A-B-C'', primary_artist_name = ascii ''Genius Translations'',
        featured_artist_names = []\<rparr>) (ascii ''Genius'')
   \<and> get_song_metadata
       \<lparr>title = ascii ''A-B-C'', primary_artist_name = ascii ''Genius Translations'',
        featured_artist_names = []\<rparr> = Inl ValueError"
  using get_song_metadata_hyphen_precondition
    [of "\<lparr>title = ascii ''A-B-C'', primary_artist_name = ascii ''Genius Translations'',
        featured_artist_names = []\<rparr>"]
  by (simp add: startswith_def ascii_def strip_def is_space_def)

section \<open>Properties of the tag filter\<close>

text \<open>Every element of the tree has a name in the list.\<close>

fun all_supported :: "ustr list \<Rightarrow> node \<Rightarrow> bool"
  and all_supported_list :: "ustr list \<Rightarrow> node list \<Rightarrow> bool" where
  "all_supported supported (Str k s) = True"
| "all_supported supported (Tag n a kids) = (n \<in> set supported \<and> all_supported_list supported kids)"
| "all_supported_list supported [] = True"
| "all_supported_list supported (x # xs) = (all_supported supported x \<and> all_supported_list supported xs)"

text \<open>
  Claim C2 at the document \<open><b><span>x</span></b>\<close> with only \<open>b\<close> allowed: the loop looks
  at the children of the document only, finds \<open>b\<close> allowed and stops, so the document
  comes back unchanged and still holds the element \<open>span\<close>, which is not allowed.
\<close>

theorem remove_unsupported_tags_keeps_nested:
  "remove_unsupported_tags
     [Tag (ascii ''b'') [] [Tag (ascii ''span'') [] [Str NavigableString (ascii ''x'')]]]
     [ascii ''b'']
   = [Tag (ascii ''b'') [] [Tag (ascii ''span'') [] [Str NavigableString (ascii ''x'')]]]
   \<and> \<not> all_supported_list [ascii ''b'']
       (remove_unsupported_tags
          [Tag (ascii ''b'') [] [Tag (ascii ''span'') [] [Str NavigableString (ascii ''x'')]]]
          [ascii ''b''])"
  by (simp add: remove_unsupported_tags.simps ascii_def)

section \<open>Properties of the annotation inliner\<close>

text \<open>No element named \<open>a\<close> in the tree.\<close>

fun no_anchor :: "node \<Rightarrow> bool" and no_anchor_list :: "node list \<Rightarrow> bool" where
  "no_anchor (Str k s) = True"
| "no_anchor (Tag n a kids) = (n \<noteq> ascii ''a'' \<and> no_anchor_list kids)"
| "no_anchor_list [] = True"
| "no_anchor_list (x # xs) = (no_anchor x \<and> no_anchor_list xs)"

text \<open>
  The attributes of the anchors of a tree, in document order: an anchor comes before the
  anchors inside it, and those before the anchors that follow it. The anchors may lie at
  any depth.
\<close>

fun anchor_attrs :: "node \<Rightarrow> attrs list" and anchor_attrs_list :: "node list \<Rightarrow> attrs list" where
  "anchor_attrs (Str k s) = []"
| "anchor_attrs (Tag n a kids) = (if n = ascii ''a'' then [a] else []) @ anchor_attrs_list kids"
| "anchor_attrs_list [] = []"
| "anchor_attrs_list (x # xs) = anchor_attrs x @ anchor_attrs_list xs"

text \<open>
  What the claim describes, as a function of its own: the first anchor of the tree in
  document order loses its attributes, and the block is put right after it, among its
  siblings. Nothing else changes. The result is \<open>None\<close> for a tree without an anchor.
\<close>

fun after_first_anchor :: "node list \<Rightarrow> node \<Rightarrow> node list option"
  and after_first_anchor_list :: "node list \<Rightarrow> node list \<Rightarrow> node list option" where
  "after_first_anchor block (Str k s) = None"
| "after_first_anchor block (Tag n a kids) =
     (if n = ascii ''a'' then Some (Tag n [] kids # block)
      else map_option (\<lambda>kids'. [Tag n a kids']) (after_first_anchor_list block kids))"
| "after_first_anchor_list block [] = None"
| "after_first_anchor_list block (x # xs) =
     (case after_first_anchor block x of
        Some ys \<Rightarrow> Some (ys @ xs)
      | None \<Rightarrow> map_option ((#) x) (after_first_anchor_list block xs))"

lemma inline_nodes_append:
  "inline_nodes mk used (xs @ ys)
     = (case inline_nodes mk used xs of
          Inl e \<Rightarrow> Inl e
        | Inr (u, xs') \<Rightarrow>
            (case inline_nodes mk u ys of
               Inl e \<Rightarrow> Inl e
             | Inr (u', ys') \<Rightarrow> Inr (u', xs' @ ys')))"
  by (induction xs arbitrary: used) (auto split: sum.splits)

lemma anchor_attrs_list_append:
  "anchor_attrs_list (xs @ ys) = anchor_attrs_list xs @ anchor_attrs_list ys"
  by (induction xs) auto

lemma no_anchor_attrs: "no_anchor x \<Longrightarrow> anchor_attrs x = []"
  and no_anchor_list_attrs: "no_anchor_list xs \<Longrightarrow> anchor_attrs_list xs = []"
  by (induction x and xs rule: no_anchor_no_anchor_list.induct) auto

lemma no_attrs_no_first: "anchor_attrs x = [] \<Longrightarrow> after_first_anchor block x = None"
  and no_attrs_no_first_list: "anchor_attrs_list xs = [] \<Longrightarrow> after_first_anchor_list block xs = None"
  by (induction x and xs rule: anchor_attrs_anchor_attrs_list.induct) (auto split: if_splits)

lemma attrs_first: "anchor_attrs x \<noteq> [] \<Longrightarrow> after_first_anchor block x \<noteq> None"
  and attrs_first_list:
    "anchor_attrs_list xs \<noteq> [] \<Longrightarrow> after_first_anchor_list block xs \<noteq> None"
  by (induction x and xs rule: anchor_attrs_anchor_attrs_list.induct)
    (auto split: if_splits option.splits)

text \<open>An anchor whose reference is in \<open>used\<close> already is skipped, at any depth.\<close>

lemma inline_node_used:
  "\<forall>a \<in> set (anchor_attrs x). \<exists>j \<in> set used. map_of a (ascii ''href'') = Some j \<Longrightarrow>
   inline_node mk used x = Inr (used, [x])"
  and inline_nodes_used:
  "\<forall>a \<in> set (anchor_attrs_list xs). \<exists>j \<in> set used. map_of a (ascii ''href'') = Some j \<Longrightarrow>
   inline_nodes mk used xs = Inr (used, xs)"
  by (induction x and xs rule: anchor_attrs_anchor_attrs_list.induct) auto

text \<open>
  The first anchor with a new reference gets the block; the anchors after it are skipped
  when their references are that one or in \<open>used\<close>.
\<close>

lemma inline_node_first:
  "anchor_attrs x = a1 # rest \<Longrightarrow> map_of a1 (ascii ''href'') = Some i \<Longrightarrow> i \<notin> set used \<Longrightarrow>
   mk i = Inr block \<Longrightarrow>
   \<forall>a \<in> set rest. \<exists>j \<in> set (used @ [i]). map_of a (ascii ''href'') = Some j \<Longrightarrow>
   \<exists>ys. after_first_anchor block x = Some ys \<and> inline_node mk used x = Inr (used @ [i], ys)"
  and inline_nodes_first:
  "anchor_attrs_list xs = a1 # rest \<Longrightarrow> map_of a1 (ascii ''href'') = Some i \<Longrightarrow> i \<notin> set used \<Longrightarrow>
   mk i = Inr block \<Longrightarrow>
   \<forall>a \<in> set rest. \<exists>j \<in> set (used @ [i]). map_of a (ascii ''href'') = Some j \<Longrightarrow>
   \<exists>ys. after_first_anchor_list block xs = Some ys \<and> inline_nodes mk used xs = Inr (used @ [i], ys)"
proof (induction x and xs arbitrary: rest and rest rule: anchor_attrs_anchor_attrs_list.induct)
  case (1 k s)
  then show ?case by simp
next
  case (2 n a kids)
  show ?case
  proof (cases "n = ascii ''a''")
    case True
    with "2.prems"(1) have a: "a = a1" and r: "anchor_attrs_list kids = rest" by auto
    have "inline_nodes mk (used @ [i]) kids = Inr (used @ [i], kids)"
      by (rule inline_nodes_used) (use "2.prems"(5) r in simp)
    with True a "2.prems"(2,3,4) show ?thesis by simp
  next
    case False
    with "2.prems"(1) have "anchor_attrs_list kids = a1 # rest" by simp
    from "2.IH" [OF this "2.prems"(2,3,4,5)] False show ?thesis by auto
  qed
next
  case 3
  then show ?case by simp
next
  case (4 x xs)
  show ?case
  proof (cases "anchor_attrs x")
    case Nil
    with "4.prems"(1) have "anchor_attrs_list xs = a1 # rest" by simp
    from "4.IH"(2) [OF this "4.prems"(2,3,4,5)] obtain ys where
      ys: "after_first_anchor_list block xs = Some ys"
        "inline_nodes mk used xs = Inr (used @ [i], ys)" by blast
    have "inline_node mk used x = Inr (used, [x])"
      by (rule inline_node_used) (simp add: Nil)
    with ys no_attrs_no_first [OF Nil, of block] show ?thesis by simp
  next
    case (Cons b r1)
    with "4.prems"(1) have b: "b = a1" and r: "rest = r1 @ anchor_attrs_list xs" by auto
    have "\<forall>a \<in> set r1. \<exists>j \<in> set (used @ [i]). map_of a (ascii ''href'') = Some j"
      using "4.prems"(5) r by auto
    from "4.IH"(1) [OF Cons [unfolded b] "4.prems"(2,3,4) this] obtain ys where
      ys: "after_first_anchor block x = Some ys"
        "inline_node mk used x = Inr (used @ [i], ys)" by blast
    have "inline_nodes mk (used @ [i]) xs = Inr (used @ [i], xs)"
      by (rule inline_nodes_used) (use "4.prems"(5) r in auto)
    with ys show ?thesis by simp
  qed
qed

lemma after_first_anchor_attrs:
  "after_first_anchor block x = Some ys \<Longrightarrow>
   \<exists>first rest. anchor_attrs x = first # rest
     \<and> (\<exists>inner outer. rest = inner @ outer
          \<and> anchor_attrs_list ys = [] # inner @ anchor_attrs_list block @ outer)"
  and after_first_anchor_list_attrs:
  "after_first_anchor_list block xs = Some ys \<Longrightarrow>
   \<exists>first rest. anchor_attrs_list xs = first # rest
     \<and> (\<exists>inner outer. rest = inner @ outer
          \<and> anchor_attrs_list ys = [] # inner @ anchor_attrs_list block @ outer)"
proof (induction x and xs arbitrary: ys and ys rule: anchor_attrs_anchor_attrs_list.induct)
  case (1 k s)
  then show ?case by simp
next
  case (2 n a kids)
  show ?case
  proof (cases "n = ascii ''a''")
    case True
    with "2.prems" have "ys = Tag n [] kids # block" by simp
    with True have "anchor_attrs (Tag n a kids) = a # anchor_attrs_list kids"
      "anchor_attrs_list kids = anchor_attrs_list kids @ []"
      "anchor_attrs_list ys = [] # anchor_attrs_list kids @ anchor_attrs_list block @ []"
      by simp_all
    then show ?thesis by blast
  next
    case False
    with "2.prems" obtain kids' where k: "after_first_anchor_list block kids = Some kids'"
      and ys: "ys = [Tag n a kids']" by auto
    from "2.IH" [OF k] False ys show ?thesis by simp
  qed
next
  case 3
  then show ?case by simp
next
  case (4 x xs)
  show ?case
  proof (cases "after_first_anchor block x")
    case (Some zs)
    with "4.prems" have ys: "ys = zs @ xs" by simp
    from "4.IH"(1) [OF Some] obtain first rest inner outer where
      f: "anchor_attrs x = first # rest" "rest = inner @ outer"
        "anchor_attrs_list zs = [] # inner @ anchor_attrs_list block @ outer" by blast
    have "anchor_attrs_list (x # xs) = first # (rest @ anchor_attrs_list xs)"
      "rest @ anchor_attrs_list xs = inner @ (outer @ anchor_attrs_list xs)"
      "anchor_attrs_list ys
         = [] # inner @ anchor_attrs_list block @ (outer @ anchor_attrs_list xs)"
      using f by (simp_all add: ys anchor_attrs_list_append)
    then show ?thesis by blast
  next
    case None
    with "4.prems" obtain zs where z: "after_first_anchor_list block xs = Some zs"
      and ys: "ys = x # zs" by auto
    have x: "anchor_attrs x = []"
      using attrs_first [of x block] None by blast
    from "4.IH"(2) [OF z] x ys show ?thesis by simp
  qed
qed

lemma after_first_anchor_count:
  "after_first_anchor block x = Some ys \<Longrightarrow>
   sum_list (map tag_count ys) = tag_count x + sum_list (map tag_count block)"
  and after_first_anchor_list_count:
  "after_first_anchor_list block xs = Some ys \<Longrightarrow>
   sum_list (map tag_count ys) = sum_list (map tag_count xs) + sum_list (map tag_count block)"
  by (induction x and xs arbitrary: ys and ys rule: anchor_attrs_anchor_attrs_list.induct)
    (auto split: if_splits option.splits)

text \<open>
  Claim C3, as the code has it. Take a document that holds exactly two anchors, anywhere
  in the tree, both with the reference \<open>i\<close>, with \<open>include_annotations\<close> true, an
  annotation for \<open>i\<close>, and a parser that accepts the text of the block. Then the result is
  the document in which the first anchor has lost its attributes and the block stands
  right after it, and nothing else has changed: exactly one block is inserted (the
  elements of the result are those of the document and those of the one block), and when
  the block holds no anchor, the anchors of the result are the first one without
  attributes and the second one with the attributes it had. The second anchor is skipped.
\<close>

theorem format_annotations_shared_reference:
  assumes "anchor_attrs_list soup = [attrs1, attrs2]"
    and "map_of attrs1 (ascii ''href'') = Some i" "map_of attrs2 (ascii ''href'') = Some i"
    and "map_of annotations i = Some body"
    and "html_parser (annotation_content identifiers format_type body) = Some annotation"
  shows "\<exists>soup'.
      format_annotations_soup html_parser sanitize soup annotations True identifiers format_type
        = Inr soup'
      \<and> after_first_anchor_list (sanitize annotation) soup = Some soup'
      \<and> sum_list (map tag_count soup')
          = sum_list (map tag_count soup) + sum_list (map tag_count (sanitize annotation))
      \<and> (no_anchor_list (sanitize annotation) \<longrightarrow> anchor_attrs_list soup' = [[], attrs2])"
proof -
  let ?mk = "build_annotation html_parser sanitize annotations identifiers format_type"
  let ?block = "sanitize annotation"
  have mk: "?mk i = Inr ?block" using assms(4,5) by (simp add: build_annotation_def)
  have ne: "annotations \<noteq> []" using assms(4) by auto
  have "\<forall>a \<in> set [attrs2]. \<exists>j \<in> set ([] @ [i]). map_of a (ascii ''href'') = Some j"
    using assms(3) by simp
  from inline_nodes_first [of soup attrs1 "[attrs2]" i "[]" ?mk ?block, OF assms(1,2) _ mk this]
  obtain soup' where
    s: "after_first_anchor_list ?block soup = Some soup'"
      "inline_nodes ?mk [] soup = Inr ([i], soup')" by auto
  have 1: "format_annotations_soup html_parser sanitize soup annotations True identifiers format_type
      = Inr soup'"
    using s(2) ne by (simp add: format_annotations_soup_def)
  have 2: "sum_list (map tag_count soup')
      = sum_list (map tag_count soup) + sum_list (map tag_count ?block)"
    by (rule after_first_anchor_list_count [OF s(1)])
  have 3: "anchor_attrs_list soup' = [[], attrs2]" if "no_anchor_list ?block"
  proof -
    from after_first_anchor_list_attrs [OF s(1)] obtain first rest inner outer where
      f: "anchor_attrs_list soup = first # rest" "rest = inner @ outer"
        "anchor_attrs_list soup' = [] # inner @ anchor_attrs_list ?block @ outer" by blast
    with assms(1) have "inner @ outer = [attrs2]" by simp
    with f(3) no_anchor_list_attrs [OF that] show ?thesis by simp
  qed
  from 1 2 3 s(1) show ?thesis by blast
qed

lemma sample_annotation:
  "sample_parser (annotation_content (ascii ''!--!'', ascii ''!__!'') (ascii ''zip'') (ascii ''note''))
     = Some [Tag (ascii ''annotation'') []
          [Str NavigableString ([10] @ ascii ''!--!'' @ [10] @ ascii ''note'' @ [10] @ ascii ''!__!'' @ [10])]]"
  by (simp add: sample_parser_def annotation_content_def plain_text_def text_nodes_def ascii_def
      unknown_marked_section_def)

text \<open>
  The theorem at \<open><p><a href="1">x</a> <b><a href="1">y</a></b></p>\<close>, where the
  anchors lie inside a paragraph and at different depths.
\<close>

theorem format_annotations_shared_reference_witness:
  "anchor_attrs_list
     [Tag (ascii ''p'') []
        [Tag (ascii ''a'') [(ascii ''href'', ascii ''1'')] [Str NavigableString (ascii ''x'')],
         Str NavigableString (ascii '' ''),
         Tag (ascii ''b'') []
           [Tag (ascii ''a'') [(ascii ''href'', ascii ''1'')] [Str NavigableString (ascii ''y'')]]]]
     = [[(ascii ''href'', ascii ''1'')], [(ascii ''href'', ascii ''1'')]]
   \<and> format_annotations_soup sample_parser id
       [Tag (ascii ''p'') []
          [Tag (ascii ''a'') [(ascii ''href'', ascii ''1'')] [Str NavigableString (ascii ''x'')],
           Str NavigableString (ascii '' ''),
           Tag (ascii ''b'') []
             [Tag (ascii ''a'') [(ascii ''href'', ascii ''1'')] [Str NavigableString (ascii ''y'')]]]]
       [(ascii ''1'', ascii ''note'')] True (ascii ''!--!'', ascii ''!__!'') (ascii ''zip'')
     = Inr [Tag (ascii ''p'') []
              [Tag (ascii ''a'') [] [Str NavigableString (ascii ''x'')],
               Tag (ascii ''annotation'') []
                 [Str NavigableString
                    ([10] @ ascii ''!--!'' @ [10] @ ascii ''note'' @ [10] @ ascii ''!__!'' @ [10])],
               Str NavigableString (ascii '' ''),
               Tag (ascii ''b'') []
                 [Tag (ascii ''a'') [(ascii ''href'', ascii ''1'')]
                    [Str NavigableString (ascii ''y'')]]]]"
proof -
  let ?soup = "[Tag (ascii ''p'') []
        [Tag (ascii ''a'') [(ascii ''href'', ascii ''1'')] [Str NavigableString (ascii ''x'')],
         Str NavigableString (ascii '' ''),
         Tag (ascii ''b'') []
           [Tag (ascii ''a'') [(ascii ''href'', ascii ''1'')] [Str NavigableString (ascii ''y'')]]]]"
  have a: "anchor_attrs_list ?soup
      = [[(ascii ''href'', ascii ''1'')], [(ascii ''href'', ascii ''1'')]]"
    by (simp add: ascii_def)
  have m: "map_of [(ascii ''href'', ascii ''1'')] (ascii ''href'') = Some (ascii ''1'')"
    "map_of [(ascii ''1'', ascii ''note'')] (ascii ''1'') = Some (ascii ''note'')"
    by simp_all
  from format_annotations_shared_reference
    [where sanitize = id and html_parser = sample_parser, OF a m(1) m(1) m(2) sample_annotation]
  obtain soup' where
    s: "format_annotations_soup sample_parser id ?soup [(ascii ''1'', ascii ''note'')] True
          (ascii ''!--!'', ascii ''!__!'') (ascii ''zip'') = Inr soup'"
      "after_first_anchor_list
         (id [Tag (ascii ''annotation'') []
            [Str NavigableString
               ([10] @ ascii ''!--!'' @ [10] @ ascii ''note'' @ [10] @ ascii ''!__!'' @ [10])]])
         ?soup = Some soup'"
    by blast
  from s(2) have "soup' = [Tag (ascii ''p'') []
              [Tag (ascii ''a'') [] [Str NavigableString (ascii ''x'')],
               Tag (ascii ''annotation'') []
                 [Str NavigableString
                    ([10] @ ascii ''!--!'' @ [10] @ ascii ''note'' @ [10] @ ascii ''!__!'' @ [10])],
               Str NavigableString (ascii '' ''),
               Tag (ascii ''b'') []
                 [Tag (ascii ''a'') [(ascii ''href'', ascii ''1'')]
                    [Str NavigableString (ascii ''y'')]]]]"
    by (simp add: ascii_def)
  with s(1) a show ?thesis by simp
qed

text \<open>
  Claim C3, as stated, fails at \<open><a href="1">x</a><a href="1">y</a>\<close> with the annotation
  \<open>note\<close> for \<open>1\<close>: one block is inserted after the first anchor, but the second anchor
  still has its \<open>href\<close>.
\<close>

theorem format_annotations_second_anchor_counterexample:
  "format_annotations_soup sample_parser id
     [Tag (ascii ''a'') [(ascii ''href'', ascii ''1'')] [Str NavigableString (ascii ''x'')],
      Tag (ascii ''a'') [(ascii ''href'', ascii ''1'')] [Str NavigableString (ascii ''y'')]]
     [(ascii ''1'', ascii ''note'')] True (ascii ''!--!'', ascii ''!__!'') (ascii ''zip'')
   = Inr [Tag (ascii ''a'') [] [Str NavigableString (ascii ''x'')],
          Tag (ascii ''annotation'') []
            [Str NavigableString
               ([10] @ ascii ''!--!'' @ [10] @ ascii ''note'' @ [10] @ ascii ''!__!'' @ [10])],
          Tag (ascii ''a'') [(ascii ''href'', ascii ''1'')] [Str NavigableString (ascii ''y'')]]"
proof -
  have "build_annotation sample_parser id [(ascii ''1'', ascii ''note'')]
      (ascii ''!--!'', ascii ''!__!'') (ascii ''zip'') (ascii ''1'')
    = Inr [Tag (ascii ''annotation'') []
            [Str NavigableString
               ([10] @ ascii ''!--!'' @ [10] @ ascii ''note'' @ [10] @ ascii ''!__!'' @ [10])]]"
    by (simp add: build_annotation_def sample_annotation)
  then show ?thesis
    by (simp add: format_annotations_soup_def)
qed

section \<open>Properties of the archive producer\<close>

text \<open>
  The song at index \<open>i\<close> can be written: both formatters return, the text and the name of
  the entry (cut at its first NUL) hold no surrogate, and the encoded name is short enough.
\<close>

definition song_writable ::
  "(ustr \<Rightarrow> ustr) \<Rightarrow> (ustr \<Rightarrow> (ustr \<times> ustr) list \<Rightarrow> bool \<Rightarrow> ustr list \<Rightarrow> error + 'doc)
     \<Rightarrow> ('doc \<Rightarrow> ustr \<Rightarrow> error + ustr) \<Rightarrow> user_data \<Rightarrow> nat \<Rightarrow> zip_song \<Rightarrow> bool" where
  "song_writable sf_format_filename sf_format_annotations sf_format_language ud i song \<longleftrightarrow>
     (case sf_format_annotations (song_lyrics song) (song_annotations song)
             (include_annotations ud) [ascii ''!--!'', ascii ''!__!''] of
        Inl e \<Rightarrow> False
      | Inr lyrics \<Rightarrow>
          (case sf_format_language lyrics (lyrics_lang ud) of
             Inl e \<Rightarrow> False
           | Inr lyrics' \<Rightarrow>
               \<not> list_ex is_surrogate (crlf lyrics')
               \<and> \<not> list_ex is_surrogate
                     (takeWhile (\<lambda>c. c \<noteq> 0) (entry_name sf_format_filename i (song_title song)))
               \<and> utf8_length
                     (takeWhile (\<lambda>c. c \<noteq> 0) (entry_name sf_format_filename i (song_title song)))
                   \<le> 65535))"

lemma zip_writestr_Inr:
  "zip_writestr n d z = Inr z' \<Longrightarrow> z' = z @ [(takeWhile (\<lambda>c. c \<noteq> 0) n, d)]"
  by (auto simp: zip_writestr_def Let_def split: if_splits)

lemma zip_writestr_returns:
  "(\<exists>z'. zip_writestr n d z = Inr z') \<longleftrightarrow>
     \<not> list_ex is_surrogate d \<and> \<not> list_ex is_surrogate (takeWhile (\<lambda>c. c \<noteq> 0) n)
     \<and> utf8_length (takeWhile (\<lambda>c. c \<noteq> 0) n) \<le> 65535"
  by (auto simp: zip_writestr_def Let_def)

lemma write_songs_entries:
  "write_songs ff fa fl ud i ss acc = Inr es \<Longrightarrow>
   length es = length acc + length ss \<and> take (length acc) es = acc
   \<and> (\<forall>j < length ss. fst (es ! (length acc + j))
         = takeWhile (\<lambda>c. c \<noteq> 0) (entry_name ff (i + j) (song_title (ss ! j))))"
proof (induction ss arbitrary: i acc)
  case Nil
  then show ?case by simp
next
  case (Cons s ss)
  from Cons.prems obtain l l' acc' where
    w: "zip_writestr (entry_name ff i (song_title s)) (crlf l') acc = Inr acc'"
    and r: "write_songs ff fa fl ud (i + 1) ss acc' = Inr es"
    by (auto split: sum.splits)
  from zip_writestr_Inr [OF w]
  have acc': "acc' = acc @ [(takeWhile (\<lambda>c. c \<noteq> 0) (entry_name ff i (song_title s)), crlf l')]" .
  from Cons.IH [OF r] have ih: "length es = length acc' + length ss"
    "take (length acc') es = acc'"
    "\<forall>j < length ss. fst (es ! (length acc' + j))
         = takeWhile (\<lambda>c. c \<noteq> 0) (entry_name ff (i + 1 + j) (song_title (ss ! j)))"
    by auto
  have 1: "length es = length acc + length (s # ss)" using ih(1) acc' by simp
  have t: "take (Suc (length acc)) es = acc'" using ih(2) acc' by simp
  have 2: "take (length acc) es = acc"
  proof -
    have "take (length acc) es = take (length acc) (take (Suc (length acc)) es)" by simp
    also have "\<dots> = acc" unfolding t acc' by simp
    finally show ?thesis .
  qed
  have e0: "es ! length acc = acc' ! length acc"
  proof -
    have "es ! length acc = take (Suc (length acc)) es ! length acc" by simp
    then show ?thesis unfolding t .
  qed
  have 3: "fst (es ! (length acc + j))
         = takeWhile (\<lambda>c. c \<noteq> 0) (entry_name ff (i + j) (song_title ((s # ss) ! j)))"
    if "j < length (s # ss)" for j
  proof (cases j)
    case 0
    with e0 acc' show ?thesis by simp
  next
    case (Suc j')
    with that have "j' < length ss" by simp
    with ih(3) have "fst (es ! (length acc' + j'))
         = takeWhile (\<lambda>c. c \<noteq> 0) (entry_name ff (i + 1 + j') (song_title (ss ! j')))" by blast
    then show ?thesis unfolding Suc acc' by simp
  qed
  from 1 2 3 show ?case by blast
qed

lemma write_songs_returns:
  "(\<exists>es. write_songs ff fa fl ud i ss acc = Inr es)
     \<longleftrightarrow> (\<forall>(j, song) \<in> set (enumerate i ss). song_writable ff fa fl ud j song)"
proof (induction ss arbitrary: i acc)
  case Nil
  show ?case by simp
next
  case (Cons s ss)
  show ?case
  proof (cases "song_writable ff fa fl ud i s")
    case False
    then have "\<not> (\<exists>es. write_songs ff fa fl ud i (s # ss) acc = Inr es)"
      by (auto simp: song_writable_def zip_writestr_def Let_def split: sum.splits if_splits)
    with False show ?thesis by simp
  next
    case True
    then obtain l l' where l: "fa (song_lyrics s) (song_annotations s) (include_annotations ud)
        [ascii ''!--!'', ascii ''!__!''] = Inr l" "fl l (lyrics_lang ud) = Inr l'"
      by (auto simp: song_writable_def split: sum.splits)
    with True obtain acc' where
      w: "zip_writestr (entry_name ff i (song_title s)) (crlf l') acc = Inr acc'"
      using zip_writestr_returns [of "entry_name ff i (song_title s)" "crlf l'" acc]
      by (auto simp: song_writable_def)
    have "write_songs ff fa fl ud i (s # ss) acc = write_songs ff fa fl ud (Suc i) ss acc'"
      using l w by simp
    with Cons.IH [of "Suc i" acc'] True show ?thesis by simp
  qed
qed


lemma dash_here_hyphen: "dash_here s = Some r \<Longrightarrow> 45 \<in> set s"
proof -
  assume "dash_here s = Some r"
  then obtain r0 where "dropWhile is_space s = 45 # r0"
    by (auto simp: dash_here_def split: list.splits if_splits)
  then have "45 \<in> set (dropWhile is_space s)" by simp
  then show ?thesis by (rule set_dropWhileD)
qed

lemma dash_from_hyphen: "dash_from k s = Some r \<Longrightarrow> 45 \<in> set s"
proof (induction k)
  case 0
  then show ?case by (simp add: dash_here_hyphen)
next
  case (Suc k)
  show ?case
  proof (cases "dash_here (drop (Suc k) s)")
    case None
    with Suc show ?thesis by (simp add: orelse_def)
  next
    case (Some r')
    from dash_here_hyphen [OF this] show ?thesis by (auto dest: in_set_dropD)
  qed
qed

lemma artist_prefix_sub_no_hyphen: "45 \<notin> set s \<Longrightarrow> artist_prefix_sub s = s"
proof (induction s)
  case Nil
  show ?case by simp
next
  case (Cons c cs)
  have "artist_prefix_match (c # cs) = None"
  proof (cases "artist_prefix_match (c # cs)")
    case (Some r)
    then have "45 \<in> set (c # cs)" unfolding artist_prefix_match_def by (rule dash_from_hyphen)
    with Cons.prems show ?thesis by simp
  qed simp
  with Cons show ?case by simp
qed

lemma dash_from_last:
  "dash_here (drop k s) = Some r \<Longrightarrow> k \<le> n \<Longrightarrow>
   (\<And>k'. k < k' \<Longrightarrow> k' \<le> n \<Longrightarrow> dash_here (drop k' s) = None) \<Longrightarrow>
   dash_from n s = Some r"
proof (induction n)
  case 0
  then show ?case by simp
next
  case (Suc n)
  show ?case
  proof (cases "k = Suc n")
    case True
    with Suc.prems(1) show ?thesis by (simp add: orelse_def)
  next
    case False
    with Suc.prems(2) have kn: "k \<le> n" by simp
    have "dash_here (drop (Suc n) s) = None" using Suc.prems(3) [of "Suc n"] kn by simp
    moreover have "dash_from n s = Some r"
      using Suc.IH [OF Suc.prems(1) kn] Suc.prems(3) by simp
    ultimately show ?thesis by (simp add: orelse_def)
  qed
qed

lemma artist_prefix_sub_hyphen:
  assumes "10 \<notin> set a" "10 \<notin> set b" "45 \<notin> set b"
  shows "artist_prefix_sub (a @ [45] @ b) = dropWhile is_space b"
proof -
  let ?s = "a @ [45] @ b"
  have h: "dash_here (drop (length a) ?s) = Some (dropWhile is_space b)"
    by (simp add: dash_here_def is_space_def)
  have n: "dash_here (drop k' ?s) = None" if "length a < k'" for k'
  proof (cases "dash_here (drop k' ?s)")
    case (Some r)
    from dash_here_hyphen [OF this] have "45 \<in> set (drop k' ?s)" .
    moreover have "drop k' ?s = drop (k' - length a - 1) b"
      using that by (cases "k' - length a") auto
    ultimately have "45 \<in> set (drop (k' - length a - 1) b)" by (simp only:)
    then have "45 \<in> set b" by (rule in_set_dropD)
    with assms(3) show ?thesis by simp
  qed simp
  have l: "line_rest ?s = ?s" using assms(1,2) by (auto simp: line_rest_def)
  have "artist_prefix_match ?s = Some (dropWhile is_space b)"
    unfolding artist_prefix_match_def l
  proof (rule dash_from_last [OF h])
    show "length a \<le> length ?s" by simp
  next
    fix k' assume "length a < k'"
    then show "dash_here (drop k' ?s) = None" by (rule n)
  qed
  moreover obtain c cs where s: "?s = c # cs" by (cases ?s) auto
  ultimately have "artist_prefix_sub ?s = artist_prefix_sub (dropWhile is_space b)"
    by simp
  moreover have "45 \<notin> set (dropWhile is_space b)" using assms(3) by (auto dest: set_dropWhileD)
  ultimately show ?thesis by (simp add: artist_prefix_sub_no_hyphen)
qed

lemma translation_suffix_sub_no_bracket:
  "40 \<notin> set s \<Longrightarrow> 91 \<notin> set s \<Longrightarrow> translation_suffix_sub s = s"
proof (induction s)
  case Nil
  show ?case by simp
next
  case (Cons c cs)
  have "translation_suffix_match (c # cs) = None"
    using Cons.prems by (auto simp: translation_suffix_match_def split: list.splits)
  with Cons show ?case by simp
qed

lemma translation_suffix_sub_ascii:
  "\<forall>c \<in> set s. c \<le> 127 \<Longrightarrow> translation_suffix_sub s = s"
proof (induction s)
  case Nil
  show ?case by simp
next
  case (Cons c cs)
  have "translation_suffix_match (c # cs) = None"
    using Cons.prems by (auto simp: translation_suffix_match_def split: list.splits)
  with Cons show ?case by simp
qed

lemma upto_last_closer_end:
  "\<forall>c \<in> set rest. \<not> is_closer c \<Longrightarrow> is_closer cl \<Longrightarrow>
   upto_last_closer (m @ cl # rest) = m @ [cl]"
proof -
  assume a: "\<forall>c \<in> set rest. \<not> is_closer c" and c: "is_closer cl"
  have "dropWhile (\<lambda>c. \<not> is_closer c) (rev rest @ cl # rev m) = cl # rev m"
    using a c by (subst dropWhile_append2) auto
  then show ?thesis by (simp add: upto_last_closer_def)
qed

lemma translation_suffix_sub_suffix:
  assumes "40 \<notin> set a" "91 \<notin> set a" "is_space w" "b = 40 \<or> b = 91" "127 < x"
    and "10 \<notin> set m" "is_closer cl"
    and "\<forall>c \<in> set rest. \<not> is_closer c \<and> c \<noteq> 10 \<and> c \<noteq> 40 \<and> c \<noteq> 91"
  shows "translation_suffix_sub (a @ [w, b, x] @ m @ [cl] @ rest) = a @ rest"
  using assms(1,2)
proof (induction a)
  case Nil
  let ?r = "m @ cl # rest"
  have cl: "cl \<noteq> 10" using assms(7) by (auto simp: is_closer_def)
  have l: "line_rest ?r = ?r" using assms(6,8) cl by (auto simp: line_rest_def)
  have u: "upto_last_closer ?r = m @ [cl]"
    by (rule upto_last_closer_end) (use assms(7,8) in auto)
  have "translation_suffix_match (w # b # x # ?r) = Some rest"
    using assms(3,4,5) by (simp add: translation_suffix_match_def l u)
  moreover have "translation_suffix_sub rest = rest"
    by (rule translation_suffix_sub_no_bracket) (use assms(8) in auto)
  ultimately show ?case by simp
next
  case (Cons c a)
  have ws: "w \<noteq> 40" "w \<noteq> 91" using assms(3) by (auto simp: is_space_def)
  have "translation_suffix_match (c # a @ [w, b, x] @ m @ [cl] @ rest) = None"
    using Cons.prems ws
    by (cases a) (auto simp: translation_suffix_match_def split: list.splits)
  with Cons show ?case by simp
qed

lemma str_nat_no_nul: "0 \<notin> set (str_nat n)"
proof (induction n rule: str_nat.induct)
  case (1 n)
  show ?case
  proof (cases "n < 10")
    case True
    then show ?thesis by (subst str_nat.simps) simp
  next
    case False
    with 1 show ?thesis by (subst str_nat.simps) simp
  qed
qed

lemma str_nat_digit: "n < 10 \<Longrightarrow> str_nat n = [48 + n]"
  by (subst str_nat.simps) simp

lemma entry_name_number:
  "entry_name ff (j - 1) t
     = (if j \<le> 9 then [48, 48 + j] else str_nat j) @ ascii '' - ''
       @ ff (translation_suffix_sub (artist_prefix_sub t)) @ ascii ''.txt''"
  if "1 \<le> j"
  using that by (auto simp: entry_name_def Let_def str_nat_digit ascii_def)

lemma takeWhile_no_nul: "0 \<notin> set s \<Longrightarrow> takeWhile (\<lambda>c. c \<noteq> (0::nat)) s = s"
  by (induction s) auto

text \<open>
  Claim C9, as the code has it. When \<open>create_zip\<close> returns, the buffer is named after the
  sanitized full title, with \<open>.zip\<close> added, there is one entry for each song, and the entry
  for the \<open>j\<close>-th song, counted from 1, is named \<open>NN - <sanitized title>.txt\<close> cut at its
  first NUL character, so by exactly that text when the sanitized title holds no NUL;
  \<open>NN\<close> is \<open>0\<close> and the digit of \<open>j\<close> for \<open>j \<le> 9\<close> and \<open>str(j)\<close> otherwise. It returns
  exactly when every song can be written. The sanitized title is the song title without
  the artist prefix and the translation suffix, passed through \<open>format_filename\<close>: a title
  without a hyphen has no artist prefix; in a title of one line the prefix ends with the
  last hyphen and the whitespace after it; a title that is ASCII has no translation suffix;
  and a suffix made of a whitespace character, an opening parenthesis or bracket, a
  character above 127 and the text up to the last closing parenthesis or bracket of the
  line is removed.
\<close>

theorem create_zip_names:
  "(create_zip sf_format_title sf_format_filename sf_format_annotations sf_format_language
        data ud = Inr buf
     \<longrightarrow> buffer_name buf
           = sf_format_filename (sf_format_title (artist data) (album_title data)) @ ascii ''.zip''
         \<and> length (entries buf) = length (songs data)
         \<and> (\<forall>j. 1 \<le> j \<and> j \<le> length (songs data) \<longrightarrow>
              fst (entries buf ! (j - 1))
                = takeWhile (\<lambda>c. c \<noteq> 0)
                    ((if j \<le> 9 then [48, 48 + j] else str_nat j) @ ascii '' - ''
                     @ sf_format_filename
                         (translation_suffix_sub (artist_prefix_sub (song_title (songs data ! (j - 1)))))
                     @ ascii ''.txt'')
              \<and> (0 \<notin> set (sf_format_filename
                            (translation_suffix_sub
                               (artist_prefix_sub (song_title (songs data ! (j - 1))))))
                 \<longrightarrow> fst (entries buf ! (j - 1))
                     = (if j \<le> 9 then [48, 48 + j] else str_nat j) @ ascii '' - ''
                       @ sf_format_filename
                           (translation_suffix_sub
                              (artist_prefix_sub (song_title (songs data ! (j - 1)))))
                       @ ascii ''.txt'')))
   \<and> ((\<exists>b. create_zip sf_format_title sf_format_filename sf_format_annotations
               sf_format_language data ud = Inr b)
        = (\<forall>(i, song) \<in> set (enumerate 0 (songs data)).
             song_writable sf_format_filename sf_format_annotations sf_format_language ud i song))
   \<and> (45 \<notin> set ta \<longrightarrow> artist_prefix_sub ta = ta)
   \<and> (10 \<notin> set aa \<and> 10 \<notin> set ba \<and> 45 \<notin> set ba
        \<longrightarrow> artist_prefix_sub (aa @ [45] @ ba) = dropWhile is_space ba)
   \<and> ((\<forall>c \<in> set tb. c \<le> 127) \<longrightarrow> translation_suffix_sub tb = tb)
   \<and> (40 \<notin> set ab \<and> 91 \<notin> set ab \<and> is_space w \<and> (p = 40 \<or> p = 91) \<and> 127 < x \<and> 10 \<notin> set m
         \<and> is_closer cl \<and> (\<forall>c \<in> set rest. \<not> is_closer c \<and> c \<noteq> 10 \<and> c \<noteq> 40 \<and> c \<noteq> 91)
        \<longrightarrow> translation_suffix_sub (ab @ [w, p, x] @ m @ [cl] @ rest) = ab @ rest)"
proof (intro conjI impI allI)
  assume c: "create_zip sf_format_title sf_format_filename sf_format_annotations
      sf_format_language data ud = Inr buf"
  then obtain es where
    w: "write_songs sf_format_filename sf_format_annotations sf_format_language ud 0
          (songs data) [] = Inr es"
    and b: "buf = \<lparr>buffer_name = sf_format_filename (sf_format_title (artist data) (album_title data))
                     @ ascii ''.zip'', entries = es\<rparr>"
    by (auto simp: create_zip_def Let_def split: sum.splits)
  note e = write_songs_entries [OF w]
  show "buffer_name buf
      = sf_format_filename (sf_format_title (artist data) (album_title data)) @ ascii ''.zip''"
    by (simp add: b)
  show "length (entries buf) = length (songs data)" using e by (simp add: b)
  fix j assume j: "1 \<le> j \<and> j \<le> length (songs data)"
  then have "j - 1 < length (songs data)" by auto
  with e have "fst (es ! (j - 1))
      = takeWhile (\<lambda>c. c \<noteq> 0)
          (entry_name sf_format_filename (j - 1) (song_title (songs data ! (j - 1))))"
    by simp
  then show n: "fst (entries buf ! (j - 1))
      = takeWhile (\<lambda>c. c \<noteq> 0)
          ((if j \<le> 9 then [48, 48 + j] else str_nat j) @ ascii '' - ''
           @ sf_format_filename
               (translation_suffix_sub (artist_prefix_sub (song_title (songs data ! (j - 1)))))
           @ ascii ''.txt'')"
    using j by (simp only: entry_name_number b zip_buffer.simps)
  assume "0 \<notin> set (sf_format_filename
      (translation_suffix_sub (artist_prefix_sub (song_title (songs data ! (j - 1))))))"
  then have "0 \<notin> set ((if j \<le> 9 then [48, 48 + j] else str_nat j) @ ascii '' - ''
           @ sf_format_filename
               (translation_suffix_sub (artist_prefix_sub (song_title (songs data ! (j - 1)))))
           @ ascii ''.txt'')"
    using str_nat_no_nul [of j] by (simp add: ascii_def)
  from takeWhile_no_nul [OF this] n
  show "fst (entries buf ! (j - 1))
      = (if j \<le> 9 then [48, 48 + j] else str_nat j) @ ascii '' - ''
        @ sf_format_filename
            (translation_suffix_sub (artist_prefix_sub (song_title (songs data ! (j - 1)))))
        @ ascii ''.txt''"
    by (simp only:)
next
  show "(\<exists>b. create_zip sf_format_title sf_format_filename sf_format_annotations
               sf_format_language data ud = Inr b)
        = (\<forall>(i, song) \<in> set (enumerate 0 (songs data)).
             song_writable sf_format_filename sf_format_annotations sf_format_language ud i song)"
    using write_songs_returns [of sf_format_filename sf_format_annotations sf_format_language
        ud 0 "songs data" "[]"]
    by (auto simp: create_zip_def Let_def split: sum.splits)
next
  assume "45 \<notin> set ta"
  then show "artist_prefix_sub ta = ta" by (rule artist_prefix_sub_no_hyphen)
next
  assume "10 \<notin> set aa \<and> 10 \<notin> set ba \<and> 45 \<notin> set ba"
  then show "artist_prefix_sub (aa @ [45] @ ba) = dropWhile is_space ba"
    using artist_prefix_sub_hyphen [of aa ba] by blast
next
  assume "\<forall>c \<in> set tb. c \<le> 127"
  then show "translation_suffix_sub tb = tb" by (rule translation_suffix_sub_ascii)
next
  assume "40 \<notin> set ab \<and> 91 \<notin> set ab \<and> is_space w \<and> (p = 40 \<or> p = 91) \<and> 127 < x \<and> 10 \<notin> set m
         \<and> is_closer cl \<and> (\<forall>c \<in> set rest. \<not> is_closer c \<and> c \<noteq> 10 \<and> c \<noteq> 40 \<and> c \<noteq> 91)"
  then show "translation_suffix_sub (ab @ [w, p, x] @ m @ [cl] @ rest) = ab @ rest"
    using translation_suffix_sub_suffix [of ab w p x m cl rest] by blast
qed

text \<open>
  For the examples: stand-ins for \<open>string_funcs.format_annotations\<close> and
  \<open>string_funcs.format_language\<close> that hand the lyrics on unchanged; \<open>format_title\<close> and
  \<open>format_filename\<close> are those of \<open>utils.py\<close>. The album has eleven songs; the first and the
  tenth title carry the artist, the second a translation in parentheses (two Persian
  letters).
\<close>

definition sample_format_annotations ::
  "ustr \<Rightarrow> (ustr \<times> ustr) list \<Rightarrow> bool \<Rightarrow> ustr list \<Rightarrow> error + ustr" where
  "sample_format_annotations lyrics annotations include_annotations' identifiers = Inr lyrics"

definition sample_format_language :: "ustr \<Rightarrow> ustr \<Rightarrow> error + ustr" where
  "sample_format_language lyrics lyrics_language = Inr lyrics"

definition sample_song :: "ustr \<Rightarrow> zip_song" where
  "sample_song t = \<lparr>song_lyrics = ascii ''la'', song_annotations = [], song_title = t\<rparr>"

definition persian_title :: ustr where
  "persian_title = ascii ''Two ('' @ [1578, 1585] @ ascii '')''"

definition sample_album :: album where
  "sample_album =
     \<lparr>album_title = ascii ''Album'', artist = ascii ''Art'',
      songs = [sample_song (ascii ''Art - One''),
               sample_song persian_title,
               sample_song (ascii ''Mid''), sample_song (ascii ''Mid''),
               sample_song (ascii ''Mid''), sample_song (ascii ''Mid''),
               sample_song (ascii ''Mid''), sample_song (ascii ''Mid''),
               sample_song (ascii ''Mid''),
               sample_song (ascii ''Art - Ten''),
               sample_song (ascii ''Mid'')]\<rparr>"

definition sample_user_data :: user_data where
  "sample_user_data = \<lparr>lyrics_lang = ascii ''English'', include_annotations = False\<rparr>"

lemma sample_titles:
  "translation_suffix_sub (artist_prefix_sub (ascii ''Art - One'')) = ascii ''One''"
  "translation_suffix_sub (artist_prefix_sub persian_title) = ascii ''Two''"
  "translation_suffix_sub (artist_prefix_sub (ascii ''Mid'')) = ascii ''Mid''"
  "translation_suffix_sub (artist_prefix_sub (ascii ''Art - Ten'')) = ascii ''Ten''"
proof -
  have a: "ascii ''Art - One'' = ascii ''Art '' @ [45] @ ascii '' One''"
    "ascii ''Art - Ten'' = ascii ''Art '' @ [45] @ ascii '' Ten''"
    by (simp_all add: ascii_def)
  have p: "artist_prefix_sub (ascii ''Art '' @ [45] @ ascii '' One'') = dropWhile is_space (ascii '' One'')"
    "artist_prefix_sub (ascii ''Art '' @ [45] @ ascii '' Ten'') = dropWhile is_space (ascii '' Ten'')"
    by (rule artist_prefix_sub_hyphen; simp add: ascii_def)+
  have d: "dropWhile is_space (ascii '' One'') = ascii ''One''"
    "dropWhile is_space (ascii '' Ten'') = ascii ''Ten''"
    by (simp_all add: ascii_def is_space_def)
  have n: "translation_suffix_sub (ascii ''One'') = ascii ''One''"
    "translation_suffix_sub (ascii ''Ten'') = ascii ''Ten''"
    "translation_suffix_sub (ascii ''Mid'') = ascii ''Mid''"
    by (rule translation_suffix_sub_ascii; simp add: ascii_def)+
  have m: "artist_prefix_sub (ascii ''Mid'') = ascii ''Mid''"
    by (rule artist_prefix_sub_no_hyphen) (simp add: ascii_def)
  show "translation_suffix_sub (artist_prefix_sub (ascii ''Art - One'')) = ascii ''One''"
    by (simp only: a p d n)
  show "translation_suffix_sub (artist_prefix_sub (ascii ''Art - Ten'')) = ascii ''Ten''"
    by (simp only: a p d n)
  show "translation_suffix_sub (artist_prefix_sub (ascii ''Mid'')) = ascii ''Mid''"
    by (simp only: m n)
  have t: "persian_title = ascii ''Two'' @ [32, 40, 1578] @ [1585] @ [41] @ []"
    by (simp add: persian_title_def ascii_def)
  have "artist_prefix_sub persian_title = persian_title"
    by (rule artist_prefix_sub_no_hyphen) (simp add: persian_title_def ascii_def)
  moreover have "translation_suffix_sub (ascii ''Two'' @ [32, 40, 1578] @ [1585] @ [41] @ [])
      = ascii ''Two'' @ []"
    by (rule translation_suffix_sub_suffix) (simp_all add: ascii_def is_space_def is_closer_def)
  ultimately show "translation_suffix_sub (artist_prefix_sub persian_title) = ascii ''Two''"
    by (simp only: t append_Nil2)
qed

lemma sample_entry_names:
  "entry_name format_filename 0 (ascii ''Art - One'') = ascii ''01 - One.txt''"
  "entry_name format_filename 1 persian_title = ascii ''02 - Two.txt''"
  "entry_name format_filename 2 (ascii ''Mid'') = ascii ''03 - Mid.txt''"
  "entry_name format_filename 3 (ascii ''Mid'') = ascii ''04 - Mid.txt''"
  "entry_name format_filename 4 (ascii ''Mid'') = ascii ''05 - Mid.txt''"
  "entry_name format_filename 5 (ascii ''Mid'') = ascii ''06 - Mid.txt''"
  "entry_name format_filename 6 (ascii ''Mid'') = ascii ''07 - Mid.txt''"
  "entry_name format_filename 7 (ascii ''Mid'') = ascii ''08 - Mid.txt''"
  "entry_name format_filename 8 (ascii ''Mid'') = ascii ''09 - Mid.txt''"
  "entry_name format_filename 9 (ascii ''Art - Ten'') = ascii ''10 - Ten.txt''"
  "entry_name format_filename 10 (ascii ''Mid'') = ascii ''11 - Mid.txt''"
proof -
  have f: "format_filename (ascii ''One'') = ascii ''One''"
    "format_filename (ascii ''Two'') = ascii ''Two''"
    "format_filename (ascii ''Mid'') = ascii ''Mid''"
    "format_filename (ascii ''Ten'') = ascii ''Ten''"
    by (simp_all add: format_filename_def ascii_def)
  show "entry_name format_filename 0 (ascii ''Art - One'') = ascii ''01 - One.txt''"
    "entry_name format_filename 1 persian_title = ascii ''02 - Two.txt''"
    "entry_name format_filename 2 (ascii ''Mid'') = ascii ''03 - Mid.txt''"
    "entry_name format_filename 3 (ascii ''Mid'') = ascii ''04 - Mid.txt''"
    "entry_name format_filename 4 (ascii ''Mid'') = ascii ''05 - Mid.txt''"
    "entry_name format_filename 5 (ascii ''Mid'') = ascii ''06 - Mid.txt''"
    "entry_name format_filename 6 (ascii ''Mid'') = ascii ''07 - Mid.txt''"
    "entry_name format_filename 7 (ascii ''Mid'') = ascii ''08 - Mid.txt''"
    "entry_name format_filename 8 (ascii ''Mid'') = ascii ''09 - Mid.txt''"
    "entry_name format_filename 9 (ascii ''Art - Ten'') = ascii ''10 - Ten.txt''"
    "entry_name format_filename 10 (ascii ''Mid'') = ascii ''11 - Mid.txt''"
    by (simp_all add: entry_name_def Let_def sample_titles f str_nat.simps)
      (simp_all add: ascii_def)
qed

lemma zip_writestr_ascii:
  "\<forall>c \<in> set n. 0 < c \<and> c < 128 \<Longrightarrow> \<forall>c \<in> set d. c < 128 \<Longrightarrow> length n \<le> 65535 \<Longrightarrow>
   zip_writestr n d z = Inr (z @ [(n, d)])"
proof -
  assume n: "\<forall>c \<in> set n. 0 < c \<and> c < 128" and d: "\<forall>c \<in> set d. c < 128"
    and l: "length n \<le> 65535"
  have 1: "takeWhile (\<lambda>c. c \<noteq> 0) n = n" using n by (intro takeWhile_no_nul) auto
  have 2: "\<not> list_ex is_surrogate n" "\<not> list_ex is_surrogate d"
    using n d by (auto simp: list_ex_iff is_surrogate_def)
  have 3: "utf8_length n = length n"
    using n unfolding utf8_length_def by (induction n) auto
  show ?thesis unfolding zip_writestr_def Let_def 1 using l 2 3 by simp
qed

lemma sample_create_zip:
  "create_zip format_title format_filename sample_format_annotations sample_format_language
     sample_album sample_user_data
   = Inr \<lparr>buffer_name = ascii ''Art - Album.zip'',
          entries = map (\<lambda>n. (ascii n, ascii ''la''))
            [''01 - One.txt'', ''02 - Two.txt'', ''03 - Mid.txt'', ''04 - Mid.txt'',
             ''05 - Mid.txt'', ''06 - Mid.txt'', ''07 - Mid.txt'', ''08 - Mid.txt'',
             ''09 - Mid.txt'', ''10 - Ten.txt'', ''11 - Mid.txt'']\<rparr>"
proof -
  have w: "zip_writestr (ascii n) (crlf (ascii ''la'')) z = Inr (z @ [(ascii n, ascii ''la'')])"
    if "\<forall>c \<in> set (ascii n). 0 < c \<and> c < 128" "length n \<le> 20" for n z
  proof -
    have c: "crlf (ascii ''la'') = ascii ''la''" by (simp add: crlf_def ascii_def)
    show ?thesis unfolding c
      by (rule zip_writestr_ascii) (use that in \<open>simp_all add: ascii_def\<close>)
  qed
  have ws:
    "\<And>z. zip_writestr (ascii ''01 - One.txt'') (crlf (ascii ''la'')) z
       = Inr (z @ [(ascii ''01 - One.txt'', ascii ''la'')])"
    "\<And>z. zip_writestr (ascii ''02 - Two.txt'') (crlf (ascii ''la'')) z
       = Inr (z @ [(ascii ''02 - Two.txt'', ascii ''la'')])"
    "\<And>z. zip_writestr (ascii ''03 - Mid.txt'') (crlf (ascii ''la'')) z
       = Inr (z @ [(ascii ''03 - Mid.txt'', ascii ''la'')])"
    "\<And>z. zip_writestr (ascii ''04 - Mid.txt'') (crlf (ascii ''la'')) z
       = Inr (z @ [(ascii ''04 - Mid.txt'', ascii ''la'')])"
    "\<And>z. zip_writestr (ascii ''05 - Mid.txt'') (crlf (ascii ''la'')) z
       = Inr (z @ [(ascii ''05 - Mid.txt'', ascii ''la'')])"
    "\<And>z. zip_writestr (ascii ''06 - Mid.txt'') (crlf (ascii ''la'')) z
       = Inr (z @ [(ascii ''06 - Mid.txt'', ascii ''la'')])"
    "\<And>z. zip_writestr (ascii ''07 - Mid.txt'') (crlf (ascii ''la'')) z
       = Inr (z @ [(ascii ''07 - Mid.txt'', ascii ''la'')])"
    "\<And>z. zip_writestr (ascii ''08 - Mid.txt'') (crlf (ascii ''la'')) z
       = Inr (z @ [(ascii ''08 - Mid.txt'', ascii ''la'')])"
    "\<And>z. zip_writestr (ascii ''09 - Mid.txt'') (crlf (ascii ''la'')) z
       = Inr (z @ [(ascii ''09 - Mid.txt'', ascii ''la'')])"
    "\<And>z. zip_writestr (ascii ''10 - Ten.txt'') (crlf (ascii ''la'')) z
       = Inr (z @ [(ascii ''10 - Ten.txt'', ascii ''la'')])"
    "\<And>z. zip_writestr (ascii ''11 - Mid.txt'') (crlf (ascii ''la'')) z
       = Inr (z @ [(ascii ''11 - Mid.txt'', ascii ''la'')])"
    by (rule w; simp add: ascii_def)+
  have t: "format_filename (format_title (ascii ''Art'') (ascii ''Album'')) @ ascii ''.zip''
      = ascii ''Art - Album.zip''"
    by (simp add: format_title_def format_filename_def ascii_def startswith_def)
  have "write_songs format_filename sample_format_annotations sample_format_language
      sample_user_data 0 (songs sample_album) []
    = Inr (map (\<lambda>n. (ascii n, ascii ''la''))
            [''01 - One.txt'', ''02 - Two.txt'', ''03 - Mid.txt'', ''04 - Mid.txt'',
             ''05 - Mid.txt'', ''06 - Mid.txt'', ''07 - Mid.txt'', ''08 - Mid.txt'',
             ''09 - Mid.txt'', ''10 - Ten.txt'', ''11 - Mid.txt''])"
    unfolding sample_album_def sample_song_def
    by (simp add: sample_format_annotations_def sample_format_language_def sample_entry_names ws
        del: One_nat_def)
  with t show ?thesis by (simp add: create_zip_def Let_def sample_album_def)
qed


theorem create_zip_names_witness:
  "create_zip format_title format_filename sample_format_annotations sample_format_language
     sample_album sample_user_data
   = Inr \<lparr>buffer_name = ascii ''Art - Album.zip'',
          entries = map (\<lambda>n. (ascii n, ascii ''la''))
            [''01 - One.txt'', ''02 - Two.txt'', ''03 - Mid.txt'', ''04 - Mid.txt'',
             ''05 - Mid.txt'', ''06 - Mid.txt'', ''07 - Mid.txt'', ''08 - Mid.txt'',
             ''09 - Mid.txt'', ''10 - Ten.txt'', ''11 - Mid.txt'']\<rparr>
   \<and> (1::nat) \<le> 2 \<and> 10 \<le> length (songs sample_album)
   \<and> takeWhile (\<lambda>c. c \<noteq> 0)
         ((if (2::nat) \<le> 9 then [48, 48 + 2] else str_nat 2) @ ascii '' - ''
          @ format_filename
              (translation_suffix_sub (artist_prefix_sub (song_title (songs sample_album ! (2 - 1)))))
          @ ascii ''.txt'')
       = ascii ''02 - Two.txt''
   \<and> takeWhile (\<lambda>c. c \<noteq> 0)
         ((if (10::nat) \<le> 9 then [48, 48 + 10] else str_nat 10) @ ascii '' - ''
          @ format_filename
              (translation_suffix_sub (artist_prefix_sub (song_title (songs sample_album ! (10 - 1)))))
          @ ascii ''.txt'')
       = ascii ''10 - Ten.txt''
   \<and> list_all
         (\<lambda>(i, song). song_writable format_filename sample_format_annotations
                         sample_format_language sample_user_data i song)
         (enumerate 0 (songs sample_album))
   \<and> artist_prefix_sub (ascii ''Mid'') = ascii ''Mid''
   \<and> artist_prefix_sub (ascii ''Art '' @ [45] @ ascii '' One'') = ascii ''One''
   \<and> translation_suffix_sub (ascii ''One'') = ascii ''One''
   \<and> translation_suffix_sub (ascii ''Two'' @ [32, 40, 1578] @ [1585] @ [41] @ []) = ascii ''Two''"
proof -
  let ?b = "\<lparr>buffer_name = ascii ''Art - Album.zip'',
          entries = map (\<lambda>n. (ascii n, ascii ''la''))
            [''01 - One.txt'', ''02 - Two.txt'', ''03 - Mid.txt'', ''04 - Mid.txt'',
             ''05 - Mid.txt'', ''06 - Mid.txt'', ''07 - Mid.txt'', ''08 - Mid.txt'',
             ''09 - Mid.txt'', ''10 - Ten.txt'', ''11 - Mid.txt'']\<rparr>"
  note T = create_zip_names [where sf_format_title = format_title
      and sf_format_filename = format_filename
      and sf_format_annotations = sample_format_annotations
      and sf_format_language = sample_format_language
      and data = sample_album and ud = sample_user_data and buf = ?b
      and ta = "ascii ''Mid''" and aa = "ascii ''Art ''" and ba = "ascii '' One''"
      and tb = "ascii ''One''" and ab = "ascii ''Two''" and w = 32 and p = 40 and x = 1578
      and m = "[1585]" and cl = 41 and rest = "[]"]
  note c = sample_create_zip
  have l: "length (songs sample_album) = 11" by (simp add: sample_album_def)
  note T1 = T [THEN conjunct1, THEN mp, OF c]
  note T2 = T [THEN conjunct2]
  from T1 [THEN conjunct2, THEN conjunct2] have names: "\<forall>j. 1 \<le> j \<and> j \<le> length (songs sample_album) \<longrightarrow>
      fst (entries ?b ! (j - 1))
        = takeWhile (\<lambda>c. c \<noteq> 0)
            ((if j \<le> 9 then [48, 48 + j] else str_nat j) @ ascii '' - ''
             @ format_filename
                 (translation_suffix_sub (artist_prefix_sub (song_title (songs sample_album ! (j - 1)))))
             @ ascii ''.txt'')"
    by (rule all_forward) (erule imp_forward, assumption, erule conjunct1)
  have e: "fst (entries ?b ! (2 - 1)) = ascii ''02 - Two.txt''"
    "fst (entries ?b ! (10 - 1)) = ascii ''10 - Ten.txt''"
    by simp_all
  have n2: "takeWhile (\<lambda>c. c \<noteq> 0)
         ((if (2::nat) \<le> 9 then [48, 48 + 2] else str_nat 2) @ ascii '' - ''
          @ format_filename
              (translation_suffix_sub (artist_prefix_sub (song_title (songs sample_album ! (2 - 1)))))
          @ ascii ''.txt'')
       = ascii ''02 - Two.txt''"
    using names [rule_format, of 2] l e(1) by simp
  have n10: "takeWhile (\<lambda>c. c \<noteq> 0)
         ((if (10::nat) \<le> 9 then [48, 48 + 10] else str_nat 10) @ ascii '' - ''
          @ format_filename
              (translation_suffix_sub (artist_prefix_sub (song_title (songs sample_album ! (10 - 1)))))
          @ ascii ''.txt'')
       = ascii ''10 - Ten.txt''"
    using names [rule_format, of 10] l e(2) by simp
  have "\<exists>b. create_zip format_title format_filename sample_format_annotations
      sample_format_language sample_album sample_user_data = Inr b"
    using c by (rule exI)
  with T2 [THEN conjunct1] have wr: "\<forall>(i, song) \<in> set (enumerate 0 (songs sample_album)).
         song_writable format_filename sample_format_annotations sample_format_language
           sample_user_data i song"
    by (rule iffD1)
  have h: "45 \<notin> set (ascii ''Mid'')"
    "10 \<notin> set (ascii ''Art '') \<and> 10 \<notin> set (ascii '' One'') \<and> 45 \<notin> set (ascii '' One'')"
    "\<forall>c \<in> set (ascii ''One''). c \<le> 127"
    "40 \<notin> set (ascii ''Two'') \<and> 91 \<notin> set (ascii ''Two'') \<and> is_space 32 \<and> ((40::nat) = 40 \<or> (40::nat) = 91)
       \<and> (127::nat) < 1578 \<and> 10 \<notin> set [1585::nat] \<and> is_closer 41
       \<and> (\<forall>c \<in> set ([]::nat list). \<not> is_closer c \<and> c \<noteq> 10 \<and> c \<noteq> 40 \<and> c \<noteq> 91)"
    by (simp_all add: ascii_def is_space_def is_closer_def)
  from wr have wl: "list_all
         (\<lambda>(i, song). song_writable format_filename sample_format_annotations
                         sample_format_language sample_user_data i song)
         (enumerate 0 (songs sample_album))"
    unfolding list_all_iff .
  have d: "dropWhile is_space (ascii '' One'') = ascii ''One''"
    by (simp add: ascii_def is_space_def)
  note T3 = T2 [THEN conjunct2]
  note T4 = T3 [THEN conjunct2]
  note T5 = T4 [THEN conjunct2]
  note cl = T3 [THEN conjunct1, THEN mp, OF h(1)] T4 [THEN conjunct1, THEN mp, OF h(2)]
    T5 [THEN conjunct1, THEN mp, OF h(3)] T5 [THEN conjunct2, THEN mp, OF h(4)]
  show ?thesis
    using c n2 n10 wl cl l unfolding d by (simp only: append_Nil2 simp_thms) simp
qed

text \<open>
  Claim C9, as stated, fails for a title that holds a NUL character: for the one song
  with the title \<open>a\<close>, NUL, \<open>b\<close>, which \<open>format_filename\<close> leaves as it is, the entry is
  named \<open>01 - a\<close>, not \<open>01 - \<close> + the sanitized title + \<open>.txt\<close>.
\<close>

definition nul_album :: album where
  "nul_album =
     \<lparr>album_title = ascii ''Album'', artist = ascii ''Art'',
      songs = [sample_song [97, 0, 98]]\<rparr>"

theorem create_zip_nul_counterexample:
  "format_filename (translation_suffix_sub (artist_prefix_sub [97, 0, 98])) = [97, 0, 98]
   \<and> create_zip format_title format_filename sample_format_annotations sample_format_language
       nul_album sample_user_data
     = Inr \<lparr>buffer_name = ascii ''Art - Album.zip'',
            entries = [(ascii ''01 - a'', ascii ''la'')]\<rparr>
   \<and> ascii ''01 - a'' \<noteq> ascii ''01 - '' @ [97, 0, 98] @ ascii ''.txt''"
proof -
  have a: "artist_prefix_sub [97, 0, 98] = [97, 0, 98]"
    by (rule artist_prefix_sub_no_hyphen) simp
  have t: "translation_suffix_sub [97, 0, 98] = [97, 0, 98]"
    by (rule translation_suffix_sub_ascii) simp
  have f: "format_filename [97, 0, 98] = [97, 0, 98]"
    by (simp add: format_filename_def)
  have n: "entry_name format_filename 0 [97, 0, 98] = ascii ''01 - '' @ [97, 0, 98] @ ascii ''.txt''"
    by (simp only: entry_name_def Let_def a t f) (simp add: str_nat.simps ascii_def)
  have w: "zip_writestr (ascii ''01 - '' @ [97, 0, 98] @ ascii ''.txt'') (crlf (ascii ''la'')) []
      = Inr [(ascii ''01 - a'', ascii ''la'')]"
    by (simp add: zip_writestr_def Let_def crlf_def ascii_def is_surrogate_def utf8_length_def)
  have z: "format_filename (format_title (ascii ''Art'') (ascii ''Album'')) @ ascii ''.zip''
      = ascii ''Art - Album.zip''"
    by (simp add: format_title_def format_filename_def ascii_def startswith_def)
  have "write_songs format_filename sample_format_annotations sample_format_language
      sample_user_data 0 (songs nul_album) [] = Inr [(ascii ''01 - a'', ascii ''la'')]"
    unfolding nul_album_def sample_song_def
    by (simp only: album.select_convs zip_song.select_convs write_songs.simps
        sample_format_annotations_def sample_format_language_def sum.case n w)
  with z have c: "create_zip format_title format_filename sample_format_annotations
      sample_format_language nul_album sample_user_data
     = Inr \<lparr>buffer_name = ascii ''Art - Album.zip'',
            entries = [(ascii ''01 - a'', ascii ''la'')]\<rparr>"
    by (simp add: create_zip_def Let_def nul_album_def)
  have d: "ascii ''01 - a'' \<noteq> ascii ''01 - '' @ [97, 0, 98] @ ascii ''.txt''"
    by (simp add: ascii_def)
  from a t f c d show ?thesis by (simp only: simp_thms)
qed

section \<open>Properties of the language splitter: running it twice\<close>

subsection \<open>Occurrences of one text in another\<close>

lemma strip_prefix_same: "strip_prefix w (w @ b) = Some b"
  by (induction w) auto

lemma startswith_iff: "startswith s w \<longleftrightarrow> (\<exists>b. s = w @ b)"
proof
  assume "startswith s w"
  then obtain r where "strip_prefix w s = Some r" by (auto simp: startswith_def)
  from strip_prefix_append [OF this] show "\<exists>b. s = w @ b" by blast
next
  assume "\<exists>b. s = w @ b"
  then obtain b where "s = w @ b" by blast
  with strip_prefix_same [of w b] show "startswith s w" by (simp add: startswith_def)
qed

lemma is_in_append_right: "is_in w q \<Longrightarrow> is_in w (p @ q)"
  by (induction p) auto

lemma startswith_append: "startswith p w \<Longrightarrow> startswith (p @ q) w"
  by (auto simp: startswith_iff)

lemma is_in_append_left: "is_in w p \<Longrightarrow> is_in w (p @ q)"
proof (induction p)
  case Nil
  then show ?case by (cases q) (auto simp: startswith_def)
next
  case (Cons c p)
  then show ?case using startswith_append [of "c # p" w q] by auto
qed

lemma is_in_drop: "is_in w (drop k s) \<Longrightarrow> is_in w s"
  using is_in_append_right [of w "drop k s" "take k s"] by simp

lemma startswith_before_newline:
  "10 \<notin> set w \<Longrightarrow> startswith (p @ 10 # q) w = startswith p w"
  unfolding startswith_def
  by (induction w p rule: strip_prefix.induct) auto

lemma is_in_split_newline:
  "10 \<notin> set w \<Longrightarrow> w \<noteq> [] \<Longrightarrow> is_in w (p @ 10 # q) \<longleftrightarrow> is_in w p \<or> is_in w q"
proof (induction p)
  case Nil
  then show ?case using startswith_before_newline [of w "[]" q]
    by (cases w) (auto simp: startswith_def)
next
  case (Cons c p)
  then show ?case using startswith_before_newline [of w "c # p" q] by auto
qed

lemma find_sep_none_iff: "find_sep (x # xs) s = None \<longleftrightarrow> \<not> is_in (x # xs) s"
  by (induction s) (auto simp: startswith_def split: option.splits)

lemma strip_prefix_long:
  "length w \<le> length p \<Longrightarrow> strip_prefix w (p @ y) = None \<Longrightarrow> strip_prefix w (p @ y') = None"
  by (induction w p rule: strip_prefix.induct) (auto split: if_splits)

lemma find_sep_shape:
  "find_sep (x # xs) s = Some (a, r) \<Longrightarrow>
   s = a @ (x # xs) @ r \<and> (\<forall>y. find_sep (x # xs) (a @ (x # xs) @ y) = Some (a, y))"
proof (induction s arbitrary: a)
  case Nil
  then show ?case by simp
next
  case (Cons c cs)
  show ?case
  proof (cases "strip_prefix (x # xs) (c # cs)")
    case (Some r')
    with Cons.prems have a: "a = []" "r' = r" by auto
    from strip_prefix_append [OF Some] a
    have "c # cs = (x # xs) @ r" by simp
    moreover have "find_sep (x # xs) ((x # xs) @ y) = Some ([], y)" for y
      using strip_prefix_same [of "x # xs" y] by simp
    ultimately show ?thesis using a by simp
  next
    case None
    with Cons.prems obtain a0 where f: "find_sep (x # xs) cs = Some (a0, r)" and a: "a = c # a0"
      by (auto split: option.splits)
    from Cons.IH [OF f] have s: "cs = a0 @ (x # xs) @ r"
      and again: "\<And>y. find_sep (x # xs) (a0 @ (x # xs) @ y) = Some (a0, y)" by auto
    have "strip_prefix (x # xs) ((c # a0 @ (x # xs)) @ y) = None" for y
      by (rule strip_prefix_long [of _ _ r]) (use None s in auto)
    then have "find_sep (x # xs) (c # a0 @ (x # xs) @ y) = Some (c # a0, y)" for y
      using again [of y] by simp
    with s a show ?thesis by simp
  qed
qed

lemma find_sep_newline:
  "x \<noteq> 10 \<Longrightarrow>
   find_sep (x # xs) (10 # y) = map_option (\<lambda>(a, b). (10 # a, b)) (find_sep (x # xs) y)"
  by (auto split: option.splits)

subsection \<open>Lines\<close>

lemma line_split: "s = line_rest s @ after_line s"
  by (simp add: line_rest_def after_line_def)

lemma after_line_cases: "after_line s = [] \<or> (\<exists>r. after_line s = 10 # r)"
  unfolding after_line_def by (induction s) auto

lemma after_line_length: "length (after_line s) \<le> length s"
  unfolding after_line_def by (rule dropWhile_length_le)

lemma line_rest_no_newline: "10 \<notin> set (line_rest s)"
  unfolding line_rest_def by (auto dest: set_takeWhileD)

lemma line_rest_append: "10 \<notin> set l \<Longrightarrow> line_rest (l @ s) = l @ line_rest s"
  unfolding line_rest_def by (induction l) auto

lemma line_rest_newline [simp]: "line_rest (10 # s) = []" "line_rest [] = []"
  by (simp_all add: line_rest_def)

lemma line_rest_other: "c \<noteq> 10 \<Longrightarrow> line_rest (c # s) = c # line_rest s"
  by (simp add: line_rest_def)

lemma line_rest_through: "10 \<in> set t \<Longrightarrow> line_rest (t @ s) = line_rest t"
  unfolding line_rest_def by (induction t) auto

lemma strip_prefix_line:
  "10 \<notin> set p \<Longrightarrow> strip_prefix p (line_rest s) = None \<longleftrightarrow> strip_prefix p s = None"
  unfolding line_rest_def
  by (induction p s rule: strip_prefix.induct) auto

subsection \<open>The layout normaliser on text without a break tag\<close>

text \<open>The text \<open><br\<close> does not occur in the text, so no break tag starts in it.\<close>

definition no_break :: "ustr \<Rightarrow> bool" where
  "no_break s \<longleftrightarrow> \<not> is_in (ascii ''<br'') s"

lemma no_break_append: "no_break (a @ b) \<Longrightarrow> no_break a \<and> no_break b"
  unfolding no_break_def using is_in_append_left is_in_append_right by blast

lemma no_break_Cons: "no_break (c # s) \<Longrightarrow> no_break s"
  using no_break_append [of "[c]" s] by simp

lemma no_break_br_tag: "no_break s \<Longrightarrow> br_tag s = None"
proof (cases "strip_prefix (ascii ''<br'') s")
  case None
  then show ?thesis by (simp add: br_tag_def)
next
  case (Some r)
  assume n: "no_break s"
  from strip_prefix_append [OF Some] have "s = ascii ''<br'' @ r" .
  then obtain c cs where s: "s = c # cs" by (simp add: ascii_def)
  have "startswith s (ascii ''<br'')" using Some by (simp add: startswith_def)
  then have "is_in (ascii ''<br'') s" unfolding s by simp
  with n show ?thesis by (simp add: no_break_def)
qed

lemma no_break_marker:
  "no_break s \<Longrightarrow> newline_or_br s = (case s of [] \<Rightarrow> None | c # r \<Rightarrow> if c = 10 then Some r else None)"
  by (cases s) (auto simp: newline_or_br_def no_break_br_tag)

lemma newline_run_newlines:
  "newline_or_br x = None \<Longrightarrow>
   newline_run n (replicate k 10 @ x)
     = (if not_before_bracket x then (if 2 \<le> n + k then Some x else None)
        else if 1 \<le> k \<and> 3 \<le> n + k then Some (10 # x) else None)"
proof (induction k arbitrary: n)
  case 0
  then show ?case
    by (subst newline_run.simps) simp
next
  case (Suc k)
  have nb: "newline_or_br (replicate (Suc k) 10 @ x) = Some (replicate k 10 @ x)"
    by (simp add: newline_or_br_def)
  have nbb: "not_before_bracket (10 # y)" for y
    by (simp add: not_before_bracket_def)
  show ?case
    unfolding newline_run.simps [of n "replicate (Suc k) 10 @ x"] nb
    by (auto simp: nbb Suc.IH [OF Suc.prems])
qed

lemma remove_extra_newlines_run_of_newlines:
  "newline_or_br x = None \<Longrightarrow>
   remove_extra_newlines (replicate k 10 @ x)
     = replicate (if not_before_bracket x then min k 1 else min k 2) 10 @ remove_extra_newlines x"
proof (induction k)
  case 0
  then show ?case by simp
next
  case (Suc k)
  note run = newline_run_newlines [OF Suc.prems, of 0 "Suc k"]
  have one: "remove_extra_newlines (10 # x) = 10 # remove_extra_newlines x"
    using newline_run_newlines [OF Suc.prems, of 0 1] by simp
  show ?case
  proof (cases "not_before_bracket x")
    case True
    show ?thesis
    proof (cases k)
      case 0
      with True one show ?thesis by simp
    next
      case (Suc k')
      with True run show ?thesis by simp
    qed
  next
    case False
    show ?thesis
    proof (cases "2 \<le> k")
      case True
      with False run one show ?thesis by simp
    next
      case k: False
      with False run have "newline_run 0 (replicate (Suc k) 10 @ x) = None" by simp
      then have "remove_extra_newlines (replicate (Suc k) 10 @ x)
          = 10 # remove_extra_newlines (replicate k 10 @ x)" by simp
      with Suc.IH [OF Suc.prems] False k show ?thesis by (simp add: min_def)
    qed
  qed
qed

lemma split_newlines:
  "s = replicate (length (takeWhile (\<lambda>c. c = 10) s)) 10 @ dropWhile (\<lambda>c. c = 10) s"
  by (induction s) auto

lemma newlines_decomposition:
  "no_break s \<Longrightarrow>
   \<exists>k x. s = replicate k 10 @ x \<and> newline_or_br x = None \<and> no_break x
     \<and> (x = [] \<or> (\<exists>d ds. x = d # ds \<and> d \<noteq> 10))
     \<and> (k = 0 \<longleftrightarrow> (s = [] \<or> hd s \<noteq> 10))"
proof -
  assume a: "no_break s"
  let ?k = "length (takeWhile (\<lambda>c. c = 10) s)" and ?x = "dropWhile (\<lambda>c. c = 10) s"
  have 1: "s = replicate ?k 10 @ ?x" by (rule split_newlines)
  have 2: "no_break ?x" using a no_break_append [of "replicate ?k 10" ?x] 1 by simp
  have 3: "?x = [] \<or> (\<exists>d ds. ?x = d # ds \<and> d \<noteq> 10)"
    using hd_dropWhile [of "\<lambda>c. c = 10" s] by (cases ?x) auto
  have 4: "newline_or_br ?x = None"
  proof (cases ?x)
    case Nil
    show ?thesis unfolding Nil by (simp add: newline_or_br_def)
  next
    case (Cons d ds)
    with 3 have "d \<noteq> 10" by simp
    with no_break_marker [OF 2] show ?thesis unfolding Cons by simp
  qed
  have 5: "?k = 0 \<longleftrightarrow> (s = [] \<or> hd s \<noteq> 10)" by (cases s) auto
  from 1 2 3 4 5 show ?thesis by blast
qed

lemma remove_extra_newlines_char:
  "no_break (c # cs) \<Longrightarrow> c \<noteq> 10 \<Longrightarrow>
   remove_extra_newlines (c # cs) = c # remove_extra_newlines cs"
proof -
  assume n: "no_break (c # cs)" and c: "c \<noteq> 10"
  have "newline_or_br (c # cs) = None" using c by (simp add: no_break_marker [OF n])
  then have "newline_run 0 (c # cs) = None" by (subst newline_run.simps) simp
  then show ?thesis by simp
qed

lemma remove_extra_newlines_line:
  "10 \<notin> set l \<Longrightarrow> no_break (l @ r) \<Longrightarrow>
   remove_extra_newlines (l @ r) = l @ remove_extra_newlines r"
proof (induction l)
  case Nil
  show ?case by simp
next
  case (Cons c l)
  from Cons.prems have "no_break (c # l @ r)" "c \<noteq> 10" by simp_all
  from remove_extra_newlines_char [OF this] Cons.IH Cons.prems no_break_Cons [of c "l @ r"]
  show ?case by simp
qed

lemma remove_extra_newlines_keeps_newline:
  "no_break (10 # r) \<Longrightarrow> \<exists>y. remove_extra_newlines (10 # r) = 10 # y"
proof -
  assume "no_break (10 # r)"
  from newlines_decomposition [OF this] obtain k x where
    s: "10 # r = replicate k 10 @ x" and px: "newline_or_br x = None" and k: "k \<noteq> 0" by auto
  have "remove_extra_newlines (replicate k 10 @ x)
      = replicate (if not_before_bracket x then min k 1 else min k 2) 10 @ remove_extra_newlines x"
    by (rule remove_extra_newlines_run_of_newlines [OF px])
  moreover have "0 < (if not_before_bracket x then min k 1 else min k 2)"
    using k by simp
  then obtain j where "(if not_before_bracket x then min k 1 else min k 2) = Suc j"
    using gr0_implies_Suc by blast
  ultimately show ?thesis unfolding s [symmetric] by simp
qed

lemma remove_extra_newlines_line_rest:
  "no_break s \<Longrightarrow> line_rest (remove_extra_newlines s) = line_rest s"
proof -
  assume a: "no_break s"
  have s: "s = line_rest s @ after_line s" by (rule line_split)
  note l = line_rest_no_newline [of s]
  have r: "remove_extra_newlines s = line_rest s @ remove_extra_newlines (after_line s)"
    using remove_extra_newlines_line [OF l, of "after_line s"] a s by simp
  from after_line_cases [of s] show ?thesis
  proof
    assume "after_line s = []"
    with r show ?thesis using line_rest_append [OF l, of "[]"] by simp
  next
    assume "\<exists>r. after_line s = 10 # r"
    then obtain r' where r': "after_line s = 10 # r'" by blast
    have "no_break (10 # r')" using a no_break_append [of "line_rest s" "after_line s"] s r'
      by simp
    from remove_extra_newlines_keeps_newline [OF this] obtain y where
      "remove_extra_newlines (10 # r') = 10 # y" by blast
    with r r' show ?thesis using line_rest_append [OF l, of "10 # y"] by simp
  qed
qed

lemma newline_run_suffix: "newline_run n s = Some r \<Longrightarrow> \<exists>m. s = m @ r"
proof (induction n s arbitrary: r rule: newline_run.induct)
  case (1 n s)
  show ?case
  proof (cases "newline_or_br s")
    case None
    with "1.prems" have "r = s"
      by (subst (asm) newline_run.simps) (auto split: if_splits)
    then show ?thesis by simp
  next
    case (Some r0)
    note r0 = this
    show ?thesis
    proof (cases "newline_run (Suc n) r0")
      case None
      with r0 "1.prems" have "r = s"
        by (subst (asm) newline_run.simps) (auto split: if_splits)
      then show ?thesis by simp
    next
      case (Some r1)
      with r0 "1.prems" have "r = r1"
        by (subst (asm) newline_run.simps) simp
      with "1.IH" [OF r0 Some] obtain m where "r0 = m @ r" by blast
      moreover from newline_or_br_suffix [OF r0] obtain m' where "s = m' @ r0" by blast
      ultimately have "s = (m' @ m) @ r" by simp
      then show ?thesis by blast
    qed
  qed
qed

text \<open>The layout normaliser creates no occurrence of a text without a newline.\<close>

lemma remove_extra_newlines_no_new:
  "10 \<notin> set w \<Longrightarrow> w \<noteq> [] \<Longrightarrow> is_in w (p @ remove_extra_newlines s) \<Longrightarrow> is_in w (p @ s)"
proof (induction s arbitrary: p rule: remove_extra_newlines.induct)
  case 1
  then show ?case by simp
next
  case (2 c cs)
  show ?case
  proof (cases "newline_run 0 (c # cs)")
    case None
    with "2.prems" have "is_in w ((p @ [c]) @ remove_extra_newlines cs)" by simp
    from "2.IH"(1) [OF None "2.prems"(1,2) this] show ?thesis by simp
  next
    case (Some r)
    with "2.prems" have "is_in w (p @ 10 # remove_extra_newlines r)" by simp
    then have "is_in w p \<or> is_in w (remove_extra_newlines r)"
      using is_in_split_newline [OF "2.prems"(1,2)] by simp
    then show ?thesis
    proof
      assume "is_in w p"
      then show ?thesis by (rule is_in_append_left)
    next
      assume "is_in w (remove_extra_newlines r)"
      then have "is_in w ([] @ remove_extra_newlines r)" by simp
      from "2.IH"(2) [OF Some "2.prems"(1,2) this] have "is_in w r" by simp
      moreover from newline_run_suffix [OF Some] obtain m where "c # cs = m @ r" by blast
      ultimately have "is_in w (c # cs)" using is_in_append_right [of w r m] by simp
      then show ?thesis by (rule is_in_append_right)
    qed
  qed
qed

lemma remove_extra_newlines_no_break: "no_break s \<Longrightarrow> no_break (remove_extra_newlines s)"
  using remove_extra_newlines_no_new [of "ascii ''<br''" "[]" s]
  by (auto simp: no_break_def ascii_def)

lemma remove_extra_newlines_idempotent:
  "no_break s \<Longrightarrow> remove_extra_newlines (remove_extra_newlines s) = remove_extra_newlines s"
proof (induction "length s" arbitrary: s rule: less_induct)
  case less
  from newlines_decomposition [OF less.prems] obtain k x where
    s: "s = replicate k 10 @ x" and px: "newline_or_br x = None" and nx: "no_break x"
    and x: "x = [] \<or> (\<exists>d ds. x = d # ds \<and> d \<noteq> 10)" by blast
  define k' where "k' = (if not_before_bracket x then min k 1 else min k 2)"
  have r1: "remove_extra_newlines s = replicate k' 10 @ remove_extra_newlines x"
    unfolding k'_def by (subst s) (rule remove_extra_newlines_run_of_newlines [OF px])
  show ?case
  proof (cases x)
    case Nil
    have "remove_extra_newlines (replicate k' 10 @ [])
        = replicate (if not_before_bracket [] then min k' 1 else min k' 2) 10 @ remove_extra_newlines []"
      by (rule remove_extra_newlines_run_of_newlines) (simp add: newline_or_br_def)
    with r1 Nil show ?thesis by (simp add: k'_def not_before_bracket_def)
  next
    case (Cons d ds)
    with x have d: "d \<noteq> 10" by simp
    have rx: "remove_extra_newlines x = d # remove_extra_newlines ds"
      unfolding Cons by (rule remove_extra_newlines_char) (use nx Cons d in simp_all)
    have "length ds < length s" "no_break ds"
      using s Cons nx no_break_Cons [of d ds] by simp_all
    then have ih: "remove_extra_newlines (remove_extra_newlines ds) = remove_extra_newlines ds"
      by (rule less.hyps)
    have nb': "no_break (d # remove_extra_newlines ds)"
      using remove_extra_newlines_no_break [OF nx] unfolding rx .
    have py: "newline_or_br (d # remove_extra_newlines ds) = None"
      using d by (simp add: no_break_marker [OF nb'])
    have nb: "not_before_bracket (d # remove_extra_newlines ds) = not_before_bracket x"
      by (simp add: Cons not_before_bracket_def)
    have "remove_extra_newlines (replicate k' 10 @ d # remove_extra_newlines ds)
        = replicate (if not_before_bracket (d # remove_extra_newlines ds) then min k' 1 else min k' 2) 10
            @ remove_extra_newlines (d # remove_extra_newlines ds)"
      by (rule remove_extra_newlines_run_of_newlines [OF py])
    also have "(if not_before_bracket (d # remove_extra_newlines ds) then min k' 1 else min k' 2) = k'"
      unfolding nb k'_def by simp
    also have "remove_extra_newlines (d # remove_extra_newlines ds) = d # remove_extra_newlines ds"
      using remove_extra_newlines_char [OF nb' d] ih by simp
    finally show ?thesis by (simp add: r1 rx)
  qed
qed

subsection \<open>The tokens that are passed through\<close>

lemma header_token_shape:
  "header_token s = Some (t, r) \<Longrightarrow>
   s = t @ r \<and> t \<noteq> [] \<and> 10 \<notin> set t \<and> hd t = 91 \<and> (\<forall>x. header_token (t @ x) = Some (t, x))"
proof -
  assume a: "header_token s = Some (t, r)"
  let ?P = "\<lambda>x. x \<noteq> 93 \<and> x \<noteq> (10::nat)"
  from a obtain r0 where s: "s = 91 # r0" by (cases s) (auto simp: header_token_def split: if_splits)
  with a have d: "dropWhile ?P r0 = 93 # r" and b: "takeWhile ?P r0 \<noteq> []"
    and t: "t = 91 # takeWhile ?P r0 @ [93]"
    by (auto simp: header_token_def split: list.splits if_splits)
  have "r0 = takeWhile ?P r0 @ 93 # r" using d takeWhile_dropWhile_id [of ?P r0] by simp
  then have 1: "s = t @ r" by (simp add: s t)
  have 2: "10 \<notin> set t" unfolding t by (auto dest: set_takeWhileD)
  have tw: "takeWhile ?P (takeWhile ?P r0 @ 93 # x) = takeWhile ?P r0" for x
    by (subst takeWhile_append2) (auto dest: set_takeWhileD)
  have dw: "dropWhile ?P (takeWhile ?P r0 @ 93 # x) = 93 # x" for x
    by (subst dropWhile_append2) (auto dest: set_takeWhileD)
  have 3: "header_token (t @ x) = Some (t, x)" for x
    using b by (simp add: t header_token_def tw dw)
  from 1 2 3 t show ?thesis by simp
qed

lemma tag_token_shape:
  "tag_token s = Some (t, r) \<Longrightarrow>
   s = t @ r \<and> t \<noteq> [] \<and> 10 \<notin> set t \<and> hd t = 60 \<and> (\<forall>x. tag_token (t @ x) = Some (t, x))"
proof -
  assume a: "tag_token s = Some (t, r)"
  let ?P = "\<lambda>x. x \<noteq> 62 \<and> x \<noteq> (10::nat)"
  from a obtain r0 where s: "s = 60 # r0" by (cases s) (auto simp: tag_token_def split: if_splits)
  with a have d: "dropWhile ?P r0 = 62 # r"
    and t: "t = 60 # takeWhile ?P r0 @ [62]"
    by (auto simp: tag_token_def split: list.splits if_splits)
  have "r0 = takeWhile ?P r0 @ 62 # r" using d takeWhile_dropWhile_id [of ?P r0] by simp
  then have 1: "s = t @ r" by (simp add: s t)
  have 2: "10 \<notin> set t" unfolding t by (auto dest: set_takeWhileD)
  have tw: "takeWhile ?P (takeWhile ?P r0 @ 62 # x) = takeWhile ?P r0" for x
    by (subst takeWhile_append2) (auto dest: set_takeWhileD)
  have dw: "dropWhile ?P (takeWhile ?P r0 @ 62 # x) = 62 # x" for x
    by (subst dropWhile_append2) (auto dest: set_takeWhileD)
  have 3: "tag_token (t @ x) = Some (t, x)" for x
    by (simp add: t tag_token_def tw dw)
  from 1 2 3 t show ?thesis by simp
qed

lemma escaped_newline_token_shape:
  "escaped_newline_token s = Some (t, r) \<Longrightarrow>
   s = t @ r \<and> t = [92, 110] \<and> (\<forall>x. escaped_newline_token (t @ x) = Some (t, x))"
  by (auto simp: escaped_newline_token_def split: option.splits dest: strip_prefix_append)

lemma escaped_u200_token_shape:
  "escaped_u200_token s = Some (t, r) \<Longrightarrow>
   s = t @ r \<and> (\<exists>d. t = [92, 117, 50, 48, 48, d] \<and> (d = 53 \<or> d = 99))
     \<and> (\<forall>x. escaped_u200_token (t @ x) = Some (t, x))"
  by (auto simp: escaped_u200_token_def ascii_def split: option.splits list.splits if_splits
      dest: strip_prefix_append)

lemma find_sep_close_none:
  "find_sep (ascii ''!__!'') s = None \<longleftrightarrow> \<not> is_in (ascii ''!__!'') s"
  using find_sep_none_iff [of 33 "[95, 95, 33]" s] by (simp add: ascii_def)

lemma find_sep_close_shape:
  "find_sep (ascii ''!__!'') s = Some (a, r) \<Longrightarrow>
   s = a @ ascii ''!__!'' @ r
   \<and> (\<forall>y. find_sep (ascii ''!__!'') (a @ ascii ''!__!'' @ y) = Some (a, y))"
  using find_sep_shape [of 33 "[95, 95, 33]" s a r] by (simp add: ascii_def)

lemma annotation_token_shape:
  "annotation_token s = Some (t, r) \<Longrightarrow>
   \<exists>a r0. s = ascii ''!--!'' @ r0 \<and> find_sep (ascii ''!__!'') r0 = Some (a, r)
     \<and> t = ascii ''!--!'' @ a @ ascii ''!__!'' \<and> s = t @ r
     \<and> (\<forall>x. annotation_token (t @ x) = Some (t, x))"
proof -
  assume a: "annotation_token s = Some (t, r)"
  then obtain r0 where r0: "strip_prefix (ascii ''!--!'') s = Some r0"
    by (auto simp: annotation_token_def split: option.splits)
  with a obtain b where f: "find_sep (ascii ''!__!'') r0 = Some (b, r)"
    and t: "t = ascii ''!--!'' @ b @ ascii ''!__!''"
    by (auto simp: annotation_token_def split: option.splits)
  note sh = find_sep_close_shape [OF f]
  have s: "s = ascii ''!--!'' @ r0" by (rule strip_prefix_append [OF r0])
  have "annotation_token (t @ x) = Some (t, x)" for x
    using sh strip_prefix_same [of "ascii ''!--!''" "b @ ascii ''!__!'' @ x"]
    by (simp add: annotation_token_def t)
  with s f t sh show ?thesis by auto
qed

lemma annotation_token_none:
  "annotation_token s = None \<longleftrightarrow>
     strip_prefix (ascii ''!--!'') s = None
     \<or> (\<exists>r0. s = ascii ''!--!'' @ r0 \<and> \<not> is_in (ascii ''!__!'') r0)"
proof (cases "strip_prefix (ascii ''!--!'') s")
  case None
  then show ?thesis by (simp add: annotation_token_def)
next
  case (Some r0)
  from strip_prefix_append [OF Some] have s: "s = ascii ''!--!'' @ r0" .
  have "annotation_token s = None \<longleftrightarrow> find_sep (ascii ''!__!'') r0 = None"
    using Some by (auto simp: annotation_token_def split: option.splits)
  with s Some show ?thesis by (auto simp: find_sep_close_none)
qed

text \<open>Whether a token of one line starts at a place depends on the rest of the line only.\<close>

lemma case_none_aux:
  "((case D of [] \<Rightarrow> None | d # r' \<Rightarrow> if d = (k::nat) \<and> T then Some (f r') else None) = None)
     = (\<not> ((case D of [] \<Rightarrow> False | d # _ \<Rightarrow> d = k) \<and> T))"
  by (cases D) auto

lemma header_token_none_iff:
  "header_token (91 # r) = None \<longleftrightarrow>
     \<not> ((case dropWhile (\<lambda>x. x \<noteq> 93 \<and> x \<noteq> 10) r of [] \<Rightarrow> False | d # _ \<Rightarrow> d = 93)
        \<and> takeWhile (\<lambda>x. x \<noteq> 93 \<and> x \<noteq> 10) r \<noteq> [])"
  unfolding header_token_def by (simp only: list.case simp_thms if_False case_none_aux)

lemma header_token_line: "header_token s = None \<longleftrightarrow> header_token (line_rest s) = None"
proof (cases s)
  case Nil
  then show ?thesis by simp
next
  case (Cons c r)
  let ?P = "\<lambda>x. x \<noteq> 93 \<and> x \<noteq> (10::nat)"
  show ?thesis
  proof (cases "c = 91")
    case False
    with Cons show ?thesis by (cases "c = 10") (simp_all add: header_token_def line_rest_other)
  next
    case True
    have lr: "line_rest (91 # r) = 91 # line_rest r" by (simp add: line_rest_other)
    have tw: "takeWhile ?P (line_rest r) = takeWhile ?P r"
      unfolding line_rest_def by (induction r) auto
    have dw: "(case dropWhile ?P (line_rest r) of [] \<Rightarrow> False | d # _ \<Rightarrow> d = 93)
        = (case dropWhile ?P r of [] \<Rightarrow> False | d # _ \<Rightarrow> d = 93)"
      unfolding line_rest_def by (induction r) auto
    show ?thesis
      unfolding Cons True by (simp only: lr header_token_none_iff tw dw)
  qed
qed

lemma case_none_aux2:
  "((case D of [] \<Rightarrow> None | d # r' \<Rightarrow> if d = (k::nat) then Some (f r') else None) = None)
     = (\<not> (case D of [] \<Rightarrow> False | d # _ \<Rightarrow> d = k))"
  by (cases D) auto

lemma tag_token_none_iff:
  "tag_token (60 # r) = None \<longleftrightarrow>
     \<not> (case dropWhile (\<lambda>x. x \<noteq> 62 \<and> x \<noteq> 10) r of [] \<Rightarrow> False | d # _ \<Rightarrow> d = 62)"
  unfolding tag_token_def by (simp only: list.case simp_thms if_False case_none_aux2)

lemma tag_token_line: "tag_token s = None \<longleftrightarrow> tag_token (line_rest s) = None"
proof (cases s)
  case Nil
  then show ?thesis by simp
next
  case (Cons c r)
  let ?P = "\<lambda>x. x \<noteq> 62 \<and> x \<noteq> (10::nat)"
  show ?thesis
  proof (cases "c = 60")
    case False
    with Cons show ?thesis by (cases "c = 10") (simp_all add: tag_token_def line_rest_other)
  next
    case True
    have lr: "line_rest (60 # r) = 60 # line_rest r" by (simp add: line_rest_other)
    have dw: "(case dropWhile ?P (line_rest r) of [] \<Rightarrow> False | d # _ \<Rightarrow> d = 62)
        = (case dropWhile ?P r of [] \<Rightarrow> False | d # _ \<Rightarrow> d = 62)"
      unfolding line_rest_def by (induction r) auto
    show ?thesis
      unfolding Cons True by (simp only: lr tag_token_none_iff dw)
  qed
qed

lemma escaped_newline_token_line:
  "escaped_newline_token s = None \<longleftrightarrow> escaped_newline_token (line_rest s) = None"
  by (cases s; cases "tl s")
    (auto simp: escaped_newline_token_def line_rest_def split: option.splits if_splits)

lemma escaped_u200_token_line:
  "escaped_u200_token s = None \<longleftrightarrow> escaped_u200_token (line_rest s) = None"
proof -
  have b: "strip_prefix p s = Some r \<Longrightarrow> 10 \<notin> set p \<Longrightarrow>
      strip_prefix p (line_rest s) = Some (line_rest r)" for p r
    unfolding line_rest_def
    by (induction p s rule: strip_prefix.induct) (auto split: if_splits)
  have n: "10 \<notin> set (92 # ascii ''u200'')" by (simp add: ascii_def)
  show ?thesis
  proof (cases "strip_prefix (92 # ascii ''u200'') s")
    case None
    with strip_prefix_line [OF n, of s] show ?thesis by (simp add: escaped_u200_token_def)
  next
    case (Some r)
    from b [OF Some n] Some show ?thesis
      by (cases r) (auto simp: escaped_u200_token_def line_rest_def split: if_splits)
  qed
qed

lemma open_identifier_line:
  "strip_prefix (ascii ''!--!'') (line_rest s) = None
     \<longleftrightarrow> strip_prefix (ascii ''!--!'') s = None"
  by (rule strip_prefix_line) (simp add: ascii_def)

text \<open>
  The groups. A token is not empty and does not start with a newline, and it is found again
  in front of any other text. It holds no newline, unless it is an annotation.
\<close>

lemma non_english_group_shape:
  "non_english_group s = Some (t, r) \<Longrightarrow>
   s = t @ r \<and> t \<noteq> [] \<and> hd t \<noteq> 10 \<and> (\<forall>x. non_english_group (t @ x) = Some (t, x))
   \<and> (10 \<notin> set t
      \<or> (\<exists>a r0. s = ascii ''!--!'' @ r0 \<and> find_sep (ascii ''!__!'') r0 = Some (a, r)
            \<and> t = ascii ''!--!'' @ a @ ascii ''!__!''))"
proof -
  assume g: "non_english_group s = Some (t, r)"
  show ?thesis
  proof (cases "header_token s")
    case (Some p)
    with g have "header_token s = Some (t, r)" by (simp add: non_english_group_def orelse_def)
    from header_token_shape [OF this] show ?thesis
      by (simp add: non_english_group_def orelse_def)
  next
    case None
    note h = None
    show ?thesis
    proof (cases "escaped_newline_token s")
      case (Some p)
      with g h have e: "escaped_newline_token s = Some (t, r)"
        by (simp add: non_english_group_def orelse_def)
      from escaped_newline_token_shape [OF e] have t: "t = [92, 110]" "s = t @ r" by auto
      have "header_token (t @ x) = None" for x by (simp add: t header_token_def)
      with t show ?thesis
        by (simp add: non_english_group_def orelse_def escaped_newline_token_def)
    next
      case None
      note e = None
      show ?thesis
      proof (cases "annotation_token s")
        case (Some p)
        with g h e have a: "annotation_token s = Some (t, r)"
          by (simp add: non_english_group_def orelse_def)
        from annotation_token_shape [OF a] obtain b r0 where
          sh: "s = ascii ''!--!'' @ r0" "find_sep (ascii ''!__!'') r0 = Some (b, r)"
            "t = ascii ''!--!'' @ b @ ascii ''!__!''" "s = t @ r"
          and again: "\<And>x. annotation_token (t @ x) = Some (t, x)" by blast
        have "header_token (t @ x) = None" "escaped_newline_token (t @ x) = None" for x
          by (simp_all add: sh(3) header_token_def escaped_newline_token_def ascii_def)
        with again have "non_english_group (t @ x) = Some (t, x)" for x
          by (simp add: non_english_group_def orelse_def)
        moreover have "t \<noteq> []" "hd t \<noteq> 10" by (simp_all add: sh(3) ascii_def)
        ultimately show ?thesis using sh by blast
      next
        case None
        with g h e have a: "tag_token s = Some (t, r)"
          by (simp add: non_english_group_def orelse_def)
        from tag_token_shape [OF a] have sh: "s = t @ r" "t \<noteq> []" "10 \<notin> set t" "hd t = 60"
          and again: "\<And>x. tag_token (t @ x) = Some (t, x)" by auto
        from sh(2,4) obtain ds where t: "t = 60 # ds" by (cases t) auto
        have "header_token (t @ x) = None" "escaped_newline_token (t @ x) = None"
          "annotation_token (t @ x) = None" for x
          by (simp_all add: t header_token_def escaped_newline_token_def annotation_token_def
              ascii_def)
        with again have "non_english_group (t @ x) = Some (t, x)" for x
          by (simp add: non_english_group_def orelse_def)
        with sh show ?thesis by simp
      qed
    qed
  qed
qed

lemma english_group_shape:
  "english_group s = Some (t, r) \<Longrightarrow>
   s = t @ r \<and> t \<noteq> [] \<and> hd t \<noteq> 10 \<and> (\<forall>x. english_group (t @ x) = Some (t, x))
   \<and> (10 \<notin> set t
      \<or> (\<exists>a r0. s = ascii ''!--!'' @ r0 \<and> find_sep (ascii ''!__!'') r0 = Some (a, r)
            \<and> t = ascii ''!--!'' @ a @ ascii ''!__!''))"
proof -
  assume g: "english_group s = Some (t, r)"
  show ?thesis
  proof (cases "header_token s")
    case (Some p)
    with g have "header_token s = Some (t, r)" by (simp add: english_group_def orelse_def)
    from header_token_shape [OF this] show ?thesis
      by (simp add: english_group_def orelse_def)
  next
    case None
    note h = None
    show ?thesis
    proof (cases "escaped_newline_token s")
      case (Some p)
      with g h have e: "escaped_newline_token s = Some (t, r)"
        by (simp add: english_group_def orelse_def)
      from escaped_newline_token_shape [OF e] have t: "t = [92, 110]" "s = t @ r" by auto
      have "header_token (t @ x) = None" for x by (simp add: t header_token_def)
      with t show ?thesis
        by (simp add: english_group_def orelse_def escaped_newline_token_def)
    next
      case None
      note e = None
      show ?thesis
      proof (cases "escaped_u200_token s")
        case (Some p)
        with g h e have u: "escaped_u200_token s = Some (t, r)"
          by (simp add: english_group_def orelse_def)
        from escaped_u200_token_shape [OF u] obtain d where
          t: "t = [92, 117, 50, 48, 48, d]" "d = 53 \<or> d = 99" "s = t @ r"
          and again: "\<And>x. escaped_u200_token (t @ x) = Some (t, x)" by auto
        have "header_token (t @ x) = None" "escaped_newline_token (t @ x) = None" for x
          by (simp_all add: t header_token_def escaped_newline_token_def)
        with t again show ?thesis
          by (auto simp: english_group_def orelse_def)
      next
        case None
        note u = None
        show ?thesis
        proof (cases "annotation_token s")
          case (Some p)
          with g h e u have a: "annotation_token s = Some (t, r)"
            by (simp add: english_group_def orelse_def)
          from annotation_token_shape [OF a] obtain b r0 where
            sh: "s = ascii ''!--!'' @ r0" "find_sep (ascii ''!__!'') r0 = Some (b, r)"
              "t = ascii ''!--!'' @ b @ ascii ''!__!''" "s = t @ r"
            and again: "\<And>x. annotation_token (t @ x) = Some (t, x)" by blast
          have "header_token (t @ x) = None" "escaped_newline_token (t @ x) = None"
            "escaped_u200_token (t @ x) = None" for x
            by (simp_all add: sh(3) header_token_def escaped_newline_token_def
                escaped_u200_token_def ascii_def)
          with again have "english_group (t @ x) = Some (t, x)" for x
            by (simp add: english_group_def orelse_def)
          moreover have "t \<noteq> []" "hd t \<noteq> 10" by (simp_all add: sh(3) ascii_def)
          ultimately show ?thesis using sh by blast
        next
          case None
          with g h e u have a: "tag_token s = Some (t, r)"
            by (simp add: english_group_def orelse_def)
          from tag_token_shape [OF a] have sh: "s = t @ r" "t \<noteq> []" "10 \<notin> set t" "hd t = 60"
            and again: "\<And>x. tag_token (t @ x) = Some (t, x)" by auto
          from sh(2,4) obtain ds where t: "t = 60 # ds" by (cases t) auto
          have "header_token (t @ x) = None" "escaped_newline_token (t @ x) = None"
            "escaped_u200_token (t @ x) = None" "annotation_token (t @ x) = None" for x
            by (simp_all add: t header_token_def escaped_newline_token_def
                escaped_u200_token_def annotation_token_def ascii_def)
          with again have "english_group (t @ x) = Some (t, x)" for x
            by (simp add: english_group_def orelse_def)
          with sh show ?thesis by simp
        qed
      qed
    qed
  qed
qed

text \<open>
  Where no token starts, none starts in a text with the same first line, as long as no
  annotation starts there.
\<close>

lemma non_english_group_none:
  "non_english_group s = None \<longleftrightarrow>
     header_token s = None \<and> escaped_newline_token s = None \<and> annotation_token s = None
     \<and> tag_token s = None"
  by (auto simp: non_english_group_def orelse_def split: option.splits)

lemma english_group_none:
  "english_group s = None \<longleftrightarrow>
     header_token s = None \<and> escaped_newline_token s = None \<and> escaped_u200_token s = None
     \<and> annotation_token s = None \<and> tag_token s = None"
  by (auto simp: english_group_def orelse_def split: option.splits)

lemma non_english_group_line:
  "line_rest s' = line_rest s \<Longrightarrow> non_english_group s = None \<Longrightarrow>
   annotation_token s' = None \<Longrightarrow> non_english_group s' = None"
  unfolding non_english_group_none
  using header_token_line [of s] header_token_line [of s']
    escaped_newline_token_line [of s] escaped_newline_token_line [of s']
    tag_token_line [of s] tag_token_line [of s'] by simp

lemma english_group_line:
  "line_rest s' = line_rest s \<Longrightarrow> english_group s = None \<Longrightarrow>
   annotation_token s' = None \<Longrightarrow> english_group s' = None"
  unfolding english_group_none
  using header_token_line [of s] header_token_line [of s']
    escaped_newline_token_line [of s] escaped_newline_token_line [of s']
    escaped_u200_token_line [of s] escaped_u200_token_line [of s']
    tag_token_line [of s] tag_token_line [of s'] by simp

lemma non_english_group_newline: "non_english_group (10 # y) = None"
  by (simp add: non_english_group_def orelse_def header_token_def escaped_newline_token_def
      annotation_token_def tag_token_def ascii_def)

lemma english_group_newline: "english_group (10 # y) = None"
  by (simp add: english_group_def orelse_def header_token_def escaped_newline_token_def
      escaped_u200_token_def annotation_token_def tag_token_def ascii_def)

subsection \<open>Annotations and the layout normaliser\<close>

lemma find_sep_close_newline:
  "find_sep (ascii ''!__!'') (10 # y)
     = (case find_sep (ascii ''!__!'') y of None \<Rightarrow> None | Some (a, b) \<Rightarrow> Some (10 # a, b))"
  by (simp add: ascii_def)

lemma find_sep_skip_newlines:
  "find_sep (ascii ''!__!'') (replicate i 10 @ y) = Some (a, r) \<Longrightarrow>
   \<exists>a1. find_sep (ascii ''!__!'') y = Some (a1, r)"
proof (induction i arbitrary: a)
  case 0
  then show ?case by simp
next
  case (Suc i)
  have e: "find_sep (ascii ''!__!'') (replicate (Suc i) 10 @ y)
      = (case find_sep (ascii ''!__!'') (replicate i 10 @ y) of
           None \<Rightarrow> None | Some (a, b) \<Rightarrow> Some (10 # a, b))"
    by (simp only: replicate_Suc append_Cons find_sep_close_newline)
  show ?case
  proof (cases "find_sep (ascii ''!__!'') (replicate i 10 @ y)")
    case None
    with e Suc.prems show ?thesis by simp
  next
    case (Some p)
    obtain a0 b0 where p: "p = (a0, b0)" by (cases p)
    from e Suc.prems Some p have "b0 = r" by simp
    with Some p Suc.IH [of a0] show ?thesis by simp
  qed
qed

lemma find_sep_add_newlines:
  "find_sep (ascii ''!__!'') y = Some (a, r) \<Longrightarrow>
   find_sep (ascii ''!__!'') (replicate j 10 @ y) = Some (replicate j 10 @ a, r)"
proof (induction j)
  case 0
  then show ?case by simp
next
  case (Suc j)
  then show ?case by (simp only: replicate_Suc append_Cons find_sep_close_newline) simp
qed

text \<open>
  The text up to the first closing identifier stays a text up to the first closing
  identifier when the layout normaliser has gone through it.
\<close>

lemma remove_extra_newlines_up_to_close:
  "no_break s \<Longrightarrow> find_sep (ascii ''!__!'') s = Some (a, r) \<Longrightarrow>
   \<exists>a'. remove_extra_newlines s = a' @ ascii ''!__!'' @ remove_extra_newlines r
     \<and> (\<forall>x. find_sep (ascii ''!__!'') (a' @ ascii ''!__!'' @ x) = Some (a', x))"
proof (induction s arbitrary: a rule: remove_extra_newlines.induct)
  case 1
  then show ?case by (simp add: ascii_def)
next
  case (2 c cs)
  note nb = "2.prems"(1) and f = "2.prems"(2)
  have w: "10 \<notin> set (ascii ''!__!'')" "ascii ''!__!'' = 33 # [95, 95, 33]"
    by (simp_all add: ascii_def)
  show ?case
  proof (cases "strip_prefix (ascii ''!__!'') (c # cs)")
    case (Some r')
    with f have a: "a = []" "r' = r" by auto
    from strip_prefix_append [OF Some] a have s: "c # cs = ascii ''!__!'' @ r" by simp
    have "remove_extra_newlines (c # cs) = ascii ''!__!'' @ remove_extra_newlines r"
      unfolding s by (rule remove_extra_newlines_line [OF w(1)]) (use nb s in simp)
    moreover have "find_sep (ascii ''!__!'') ([] @ ascii ''!__!'' @ x) = Some ([], x)" for x
      using strip_prefix_same [of "ascii ''!__!''" x] unfolding w(2) by simp
    ultimately show ?thesis by (intro exI [of _ "[]"]) simp
  next
    case None
    with f obtain a0 where f0: "find_sep (ascii ''!__!'') cs = Some (a0, r)" and a: "a = c # a0"
      by (auto split: option.splits)
    show ?thesis
    proof (cases "newline_run 0 (c # cs)")
      case run: None
      from "2.IH"(1) [OF run no_break_Cons [OF nb] f0] obtain a0' where
        r: "remove_extra_newlines cs = a0' @ ascii ''!__!'' @ remove_extra_newlines r"
        and again: "\<And>x. find_sep (ascii ''!__!'') (a0' @ ascii ''!__!'' @ x) = Some (a0', x)"
        by blast
      have e: "remove_extra_newlines (c # cs)
          = (c # a0') @ ascii ''!__!'' @ remove_extra_newlines r"
        using run r by simp
      have "strip_prefix (ascii ''!__!'') (line_rest (c # cs)) = None"
        using None strip_prefix_line [OF w(1), of "c # cs"] by simp
      then have "strip_prefix (ascii ''!__!'') (line_rest (remove_extra_newlines (c # cs))) = None"
        by (simp only: remove_extra_newlines_line_rest [OF nb])
      then have "strip_prefix (ascii ''!__!'') (remove_extra_newlines (c # cs)) = None"
        using strip_prefix_line [OF w(1), of "remove_extra_newlines (c # cs)"] by simp
      then have n: "strip_prefix (ascii ''!__!'')
          ((c # a0' @ ascii ''!__!'') @ remove_extra_newlines r) = None"
        unfolding e by simp
      have "strip_prefix (ascii ''!__!'') ((c # a0' @ ascii ''!__!'') @ x) = None" for x
        by (rule strip_prefix_long [OF _ n]) (simp add: ascii_def)
      then have "find_sep (ascii ''!__!'') ((c # a0') @ ascii ''!__!'' @ x) = Some (c # a0', x)"
        for x using again [of x] by simp
      with e show ?thesis by blast
    next
      case (Some r1)
      from newlines_decomposition [OF nb] obtain k x where
        s: "c # cs = replicate k 10 @ x" and px: "newline_or_br x = None" by blast
      from Some newline_run_newlines [OF px, of 0 k] have "r1 = x \<or> r1 = 10 # x"
        unfolding s by (auto split: if_splits)
      then obtain j where r1: "r1 = replicate j 10 @ x"
      proof
        assume "r1 = x"
        then have "r1 = replicate 0 10 @ x" by simp
        then show ?thesis by (rule that)
      next
        assume "r1 = 10 # x"
        then have "r1 = replicate 1 10 @ x" by simp
        then show ?thesis by (rule that)
      qed
      from f [unfolded s] find_sep_skip_newlines obtain ax where
        fx: "find_sep (ascii ''!__!'') x = Some (ax, r)" by blast
      have "\<exists>a1. find_sep (ascii ''!__!'') r1 = Some (a1, r)"
        unfolding r1 using find_sep_add_newlines [OF fx, of j] by blast
      then obtain a1 where f1: "find_sep (ascii ''!__!'') r1 = Some (a1, r)" by blast
      have "no_break x" using nb no_break_append [of "replicate k 10" x] unfolding s by simp
      then have nb1: "no_break r1" using \<open>r1 = x \<or> r1 = 10 # x\<close> nb
      proof -
        from newline_run_suffix [OF Some] obtain m where "c # cs = m @ r1" by blast
        with nb no_break_append [of m r1] show ?thesis by simp
      qed
      from "2.IH"(2) [OF Some nb1 f1] obtain a1' where
        r: "remove_extra_newlines r1 = a1' @ ascii ''!__!'' @ remove_extra_newlines r"
        and again: "\<And>x. find_sep (ascii ''!__!'') (a1' @ ascii ''!__!'' @ x) = Some (a1', x)"
        by blast
      have e: "remove_extra_newlines (c # cs)
          = (10 # a1') @ ascii ''!__!'' @ remove_extra_newlines r"
        using Some r by simp
      have "find_sep (ascii ''!__!'') ((10 # a1') @ ascii ''!__!'' @ y) = Some (10 # a1', y)"
        for y using again [of y] by (simp only: append_Cons find_sep_close_newline) simp
      with e show ?thesis by blast
    qed
  qed
qed

lemma annotation_token_after_newlines:
  "no_break s \<Longrightarrow> annotation_token s = None \<Longrightarrow>
   annotation_token (remove_extra_newlines s) = None"
proof -
  assume nb: "no_break s" and a: "annotation_token s = None"
  have o: "10 \<notin> set (ascii ''!--!'')" "10 \<notin> set (ascii ''!__!'')" "ascii ''!__!'' \<noteq> []"
    by (simp_all add: ascii_def)
  from a [unfolded annotation_token_none] show ?thesis
  proof
    assume "strip_prefix (ascii ''!--!'') s = None"
    then have "strip_prefix (ascii ''!--!'') (line_rest s) = None"
      by (simp only: open_identifier_line)
    then have "strip_prefix (ascii ''!--!'') (line_rest (remove_extra_newlines s)) = None"
      by (simp only: remove_extra_newlines_line_rest [OF nb])
    then have "strip_prefix (ascii ''!--!'') (remove_extra_newlines s) = None"
      by (simp only: open_identifier_line)
    then show ?thesis by (simp add: annotation_token_def)
  next
    assume "\<exists>r0. s = ascii ''!--!'' @ r0 \<and> \<not> is_in (ascii ''!__!'') r0"
    then obtain r0 where s: "s = ascii ''!--!'' @ r0" and n: "\<not> is_in (ascii ''!__!'') r0"
      by blast
    have "remove_extra_newlines s = ascii ''!--!'' @ remove_extra_newlines r0"
      unfolding s by (rule remove_extra_newlines_line [OF o(1)]) (use nb s in simp)
    moreover have "\<not> is_in (ascii ''!__!'') (remove_extra_newlines r0)"
      using remove_extra_newlines_no_new [OF o(2,3), of "[]" r0] n by auto
    ultimately show ?thesis unfolding annotation_token_none by blast
  qed
qed

text \<open>A token in front of a text is a token in front of it after the layout normaliser.\<close>

lemma annotation_after_newlines:
  assumes "no_break (ascii ''!--!'' @ r0)" "find_sep (ascii ''!__!'') r0 = Some (a, r)"
  shows "\<exists>a'. remove_extra_newlines (ascii ''!--!'' @ r0)
        = (ascii ''!--!'' @ a' @ ascii ''!__!'') @ remove_extra_newlines r
     \<and> (\<forall>x. annotation_token ((ascii ''!--!'' @ a' @ ascii ''!__!'') @ x)
            = Some (ascii ''!--!'' @ a' @ ascii ''!__!'', x))"
proof -
  have o: "10 \<notin> set (ascii ''!--!'')" by (simp add: ascii_def)
  have nb: "no_break r0" using no_break_append [OF assms(1)] by simp
  from remove_extra_newlines_up_to_close [OF nb assms(2)] obtain a' where
    r: "remove_extra_newlines r0 = a' @ ascii ''!__!'' @ remove_extra_newlines r"
    and again: "\<And>x. find_sep (ascii ''!__!'') (a' @ ascii ''!__!'' @ x) = Some (a', x)"
    by blast
  have "remove_extra_newlines (ascii ''!--!'' @ r0) = ascii ''!--!'' @ remove_extra_newlines r0"
    by (rule remove_extra_newlines_line [OF o assms(1)])
  with r have 1: "remove_extra_newlines (ascii ''!--!'' @ r0)
      = (ascii ''!--!'' @ a' @ ascii ''!__!'') @ remove_extra_newlines r" by simp
  have 2: "annotation_token ((ascii ''!--!'' @ a' @ ascii ''!__!'') @ x)
      = Some (ascii ''!--!'' @ a' @ ascii ''!__!'', x)" for x
    using again [of x] strip_prefix_same [of "ascii ''!--!''" "a' @ ascii ''!__!'' @ x"]
    by (simp add: annotation_token_def)
  from 1 2 show ?thesis by blast
qed

lemma non_english_group_after_newlines:
  assumes "no_break u" "non_english_group u = Some (t, r)"
  shows "\<exists>t'. remove_extra_newlines u = t' @ remove_extra_newlines r \<and> t' \<noteq> []
     \<and> (\<forall>x. non_english_group (t' @ x) = Some (t', x))"
proof -
  from non_english_group_shape [OF assms(2)]
  have sh: "u = t @ r" "t \<noteq> []" and again: "\<And>x. non_english_group (t @ x) = Some (t, x)"
    and k: "10 \<notin> set t
      \<or> (\<exists>a r0. u = ascii ''!--!'' @ r0 \<and> find_sep (ascii ''!__!'') r0 = Some (a, r)
            \<and> t = ascii ''!--!'' @ a @ ascii ''!__!'')" by auto
  from k show ?thesis
  proof
    assume "10 \<notin> set t"
    from remove_extra_newlines_line [OF this, of r] assms(1) sh again show ?thesis by auto
  next
    assume "\<exists>a r0. u = ascii ''!--!'' @ r0 \<and> find_sep (ascii ''!__!'') r0 = Some (a, r)
            \<and> t = ascii ''!--!'' @ a @ ascii ''!__!''"
    then obtain a r0 where u: "u = ascii ''!--!'' @ r0"
      and f: "find_sep (ascii ''!__!'') r0 = Some (a, r)" by blast
    from annotation_after_newlines [OF assms(1) [unfolded u] f] obtain a' where
      1: "remove_extra_newlines u = (ascii ''!--!'' @ a' @ ascii ''!__!'') @ remove_extra_newlines r"
      and 2: "\<And>x. annotation_token ((ascii ''!--!'' @ a' @ ascii ''!__!'') @ x)
            = Some (ascii ''!--!'' @ a' @ ascii ''!__!'', x)"
      unfolding u by blast
    let ?t = "ascii ''!--!'' @ a' @ ascii ''!__!''"
    have "header_token (?t @ x) = None" "escaped_newline_token (?t @ x) = None" for x
      by (simp_all add: header_token_def escaped_newline_token_def ascii_def)
    with 2 have "non_english_group (?t @ x) = Some (?t, x)" for x
      by (simp add: non_english_group_def orelse_def)
    moreover have "?t \<noteq> []" by (simp add: ascii_def)
    ultimately show ?thesis using 1 by blast
  qed
qed

lemma english_group_after_newlines:
  assumes "no_break u" "english_group u = Some (t, r)"
  shows "\<exists>t'. remove_extra_newlines u = t' @ remove_extra_newlines r \<and> t' \<noteq> []
     \<and> (\<forall>x. english_group (t' @ x) = Some (t', x))"
proof -
  from english_group_shape [OF assms(2)]
  have sh: "u = t @ r" "t \<noteq> []" and again: "\<And>x. english_group (t @ x) = Some (t, x)"
    and k: "10 \<notin> set t
      \<or> (\<exists>a r0. u = ascii ''!--!'' @ r0 \<and> find_sep (ascii ''!__!'') r0 = Some (a, r)
            \<and> t = ascii ''!--!'' @ a @ ascii ''!__!'')" by auto
  from k show ?thesis
  proof
    assume "10 \<notin> set t"
    from remove_extra_newlines_line [OF this, of r] assms(1) sh again show ?thesis by auto
  next
    assume "\<exists>a r0. u = ascii ''!--!'' @ r0 \<and> find_sep (ascii ''!__!'') r0 = Some (a, r)
            \<and> t = ascii ''!--!'' @ a @ ascii ''!__!''"
    then obtain a r0 where u: "u = ascii ''!--!'' @ r0"
      and f: "find_sep (ascii ''!__!'') r0 = Some (a, r)" by blast
    from annotation_after_newlines [OF assms(1) [unfolded u] f] obtain a' where
      1: "remove_extra_newlines u = (ascii ''!--!'' @ a' @ ascii ''!__!'') @ remove_extra_newlines r"
      and 2: "\<And>x. annotation_token ((ascii ''!--!'' @ a' @ ascii ''!__!'') @ x)
            = Some (ascii ''!--!'' @ a' @ ascii ''!__!'', x)"
      unfolding u by blast
    let ?t = "ascii ''!--!'' @ a' @ ascii ''!__!''"
    have "header_token (?t @ x) = None" "escaped_newline_token (?t @ x) = None"
      "escaped_u200_token (?t @ x) = None" for x
      by (simp_all add: header_token_def escaped_newline_token_def escaped_u200_token_def
          ascii_def)
    with 2 have "english_group (?t @ x) = Some (?t, x)" for x
      by (simp add: english_group_def orelse_def)
    moreover have "?t \<noteq> []" by (simp add: ascii_def)
    ultimately show ?thesis using 1 by blast
  qed
qed

lemma non_english_group_none_after_newlines:
  "no_break s \<Longrightarrow> non_english_group s = None \<Longrightarrow>
   non_english_group (remove_extra_newlines s) = None"
  by (rule non_english_group_line [of _ s])
    (simp_all add: remove_extra_newlines_line_rest annotation_token_after_newlines
      non_english_group_none)

lemma english_group_none_after_newlines:
  "no_break s \<Longrightarrow> english_group s = None \<Longrightarrow>
   english_group (remove_extra_newlines s) = None"
  by (rule english_group_line [of _ s])
    (simp_all add: remove_extra_newlines_line_rest annotation_token_after_newlines
      english_group_none)

subsection \<open>Keeping the English lines\<close>

lemma is_in_skip_line:
  "10 \<notin> set w \<Longrightarrow> w \<noteq> [] \<Longrightarrow> is_in w (p @ after_line s) \<Longrightarrow> is_in w (p @ s)"
proof -
  assume w: "10 \<notin> set w" "w \<noteq> []" and a: "is_in w (p @ after_line s)"
  have s: "s = line_rest s @ after_line s" by (rule line_split)
  from after_line_cases [of s] show ?thesis
  proof
    assume "after_line s = []"
    with a have "is_in w p" by simp
    then show ?thesis by (rule is_in_append_left)
  next
    assume "\<exists>r. after_line s = 10 # r"
    then obtain y where y: "after_line s = 10 # y" by blast
    with a is_in_split_newline [OF w, of p y] have "is_in w p \<or> is_in w y" by simp
    then show ?thesis
    proof
      assume "is_in w p"
      then show ?thesis by (rule is_in_append_left)
    next
      assume "is_in w y"
      then have "is_in w ((p @ line_rest s @ [10]) @ y)" by (rule is_in_append_right)
      then have "is_in w (p @ line_rest s @ after_line s)" by (simp add: y)
      with s show ?thesis by simp
    qed
  qed
qed

lemma non_english_sub_through:
  "t \<noteq> [] \<Longrightarrow> non_english_group (t @ x) = Some (t, x) \<Longrightarrow>
   remove_non_english_sub (t @ x) = t @ remove_non_english_sub x"
  by (cases t) auto

lemma non_english_sub_newlines:
  "remove_non_english_sub (replicate k 10 @ x) = replicate k 10 @ remove_non_english_sub x"
  by (induction k) (simp_all add: non_english_group_newline)

lemma non_english_sub_facts:
  "length (remove_non_english_sub s) \<le> length s
   \<and> (\<not> list_ex (\<lambda>x. 127 < x) (line_rest s) \<longrightarrow> line_rest (remove_non_english_sub s) = line_rest s)"
proof (induction s rule: remove_non_english_sub.induct)
  case 1
  then show ?case by simp
next
  case (2 c cs)
  show ?case
  proof (cases "non_english_group (c # cs)")
    case (Some p)
    obtain t r where p: "p = (t, r)" by (cases p)
    note g = Some [unfolded p]
    from non_english_group_shape [OF g] have sh: "c # cs = t @ r" "t \<noteq> []" by auto
    from "2.IH"(3) [OF g refl] have ih: "length (remove_non_english_sub r) \<le> length r"
      "\<not> list_ex (\<lambda>x. 127 < x) (line_rest r) \<longrightarrow> line_rest (remove_non_english_sub r) = line_rest r"
      by auto
    have e: "remove_non_english_sub (c # cs) = t @ remove_non_english_sub r"
      using g by simp
    have 1: "length (remove_non_english_sub (c # cs)) \<le> length (c # cs)"
      unfolding e using ih(1) by (subst sh(1)) simp
    have 2: "line_rest (remove_non_english_sub (c # cs)) = line_rest (c # cs)"
      if a: "\<not> list_ex (\<lambda>x. 127 < x) (line_rest (c # cs))"
    proof (cases "10 \<in> set t")
      case True
      show ?thesis unfolding e by (subst sh(1)) (simp only: line_rest_through [OF True])
    next
      case False
      have l: "line_rest (c # cs) = t @ line_rest r"
        by (subst sh(1)) (rule line_rest_append [OF False])
      with a ih(2) have "line_rest (remove_non_english_sub r) = line_rest r" by simp
      then show ?thesis unfolding e l by (simp add: line_rest_append [OF False])
    qed
    from 1 2 show ?thesis by blast
  next
    case None
    show ?thesis
    proof (cases "list_ex (\<lambda>x. 127 < x) (line_rest (c # cs))")
      case True
      from "2.IH"(1) [OF None True] after_line_length [of "c # cs"] None True
      show ?thesis by simp
    next
      case False
      note ih = "2.IH"(2) [OF None False]
      have e: "remove_non_english_sub (c # cs) = c # remove_non_english_sub cs"
        using None False by simp
      show ?thesis
      proof (cases "c = 10")
        case True
        with ih show ?thesis unfolding e by simp
      next
        case c: False
        with False have "\<not> list_ex (\<lambda>x. 127 < x) (line_rest cs)"
          by (simp add: line_rest_other)
        with ih c show ?thesis unfolding e by (simp add: line_rest_other)
      qed
    qed
  qed
qed

text \<open>The substitution creates no occurrence of a text without a newline.\<close>

lemma non_english_sub_no_new:
  "10 \<notin> set w \<Longrightarrow> w \<noteq> [] \<Longrightarrow> is_in w (p @ remove_non_english_sub s) \<Longrightarrow> is_in w (p @ s)"
proof (induction s arbitrary: p rule: remove_non_english_sub.induct)
  case 1
  then show ?case by simp
next
  case (2 c cs)
  note w = "2.prems"(1,2)
  show ?case
  proof (cases "non_english_group (c # cs)")
    case (Some q)
    obtain t r where q: "q = (t, r)" by (cases q)
    note g = Some [unfolded q]
    from non_english_group_shape [OF g] have sh: "c # cs = t @ r" by auto
    from "2.prems"(3) g have "is_in w ((p @ t) @ remove_non_english_sub r)" by simp
    from "2.IH"(3) [OF g refl w this] show ?thesis by (subst sh) simp
  next
    case None
    show ?thesis
    proof (cases "list_ex (\<lambda>x. 127 < x) (line_rest (c # cs))")
      case True
      with "2.prems"(3) None
      have "is_in w (p @ remove_non_english_sub (after_line (c # cs)))" by simp
      from "2.IH"(1) [OF None True w this] show ?thesis by (rule is_in_skip_line [OF w])
    next
      case False
      with "2.prems"(3) None have "is_in w ((p @ [c]) @ remove_non_english_sub cs)" by simp
      from "2.IH"(2) [OF None False w this] show ?thesis by simp
    qed
  qed
qed

lemma non_english_sub_no_break: "no_break s \<Longrightarrow> no_break (remove_non_english_sub s)"
  using non_english_sub_no_new [of "ascii ''<br''" "[]" s]
  by (auto simp: no_break_def ascii_def)

lemma annotation_token_unclosed:
  "\<not> is_in (ascii ''!__!'') r0 \<Longrightarrow> annotation_token (33 # r0) = None"
proof (cases "strip_prefix (ascii ''!--!'') (33 # r0)")
  case None
  then show ?thesis by (simp add: annotation_token_def)
next
  case (Some r1)
  assume n: "\<not> is_in (ascii ''!__!'') r0"
  from strip_prefix_append [OF Some] have "r0 = [45, 45, 33] @ r1" by (simp add: ascii_def)
  with n is_in_append_right [of "ascii ''!__!''" r1 "[45, 45, 33]"]
  have "\<not> is_in (ascii ''!__!'') r1" by auto
  with strip_prefix_append [OF Some] show ?thesis unfolding annotation_token_none by blast
qed

lemma non_english_group_other:
  "c \<noteq> 91 \<Longrightarrow> c \<noteq> 92 \<Longrightarrow> c \<noteq> 33 \<Longrightarrow> c \<noteq> 60 \<Longrightarrow> non_english_group (c # cs) = None"
  by (simp add: non_english_group_def orelse_def header_token_def escaped_newline_token_def
      annotation_token_def tag_token_def ascii_def)

lemma non_english_group_exclamation:
  "non_english_group (33 # cs) = annotation_token (33 # cs)"
  by (simp add: non_english_group_def orelse_def header_token_def escaped_newline_token_def
      tag_token_def split: option.splits)

text \<open>An opening identifier that is never closed is copied.\<close>

lemma non_english_sub_unclosed:
  assumes "\<not> is_in (ascii ''!__!'') r0"
    and "\<not> list_ex (\<lambda>x. 127 < x) (line_rest (ascii ''!--!'' @ r0))"
  shows "remove_non_english_sub (ascii ''!--!'' @ r0) = ascii ''!--!'' @ remove_non_english_sub r0"
proof -
  have o: "ascii ''!--!'' = [33, 45, 45, 33]" by (simp add: ascii_def)
  have l: "\<not> list_ex (\<lambda>x. 127 < x) (line_rest (33 # 45 # 45 # 33 # r0))"
    "\<not> list_ex (\<lambda>x. 127 < x) (line_rest (45 # 45 # 33 # r0))"
    "\<not> list_ex (\<lambda>x. 127 < x) (line_rest (45 # 33 # r0))"
    "\<not> list_ex (\<lambda>x. 127 < x) (line_rest (33 # r0))"
    using assms(2) by (simp_all add: o line_rest_other)
  have "annotation_token (ascii ''!--!'' @ r0) = None"
    unfolding annotation_token_none using assms(1) by blast
  then have g0: "non_english_group (33 # 45 # 45 # 33 # r0) = None"
    by (simp add: o non_english_group_exclamation)
  have g1: "non_english_group (45 # 45 # 33 # r0) = None"
    "non_english_group (45 # 33 # r0) = None"
    by (simp_all add: non_english_group_other)
  have g3: "non_english_group (33 # r0) = None"
    using annotation_token_unclosed [OF assms(1)] by (simp add: non_english_group_exclamation)
  show ?thesis unfolding o using g0 g1 g3 l by simp
qed

lemma non_english_group_none_kept:
  assumes "non_english_group s = None" "\<not> list_ex (\<lambda>x. 127 < x) (line_rest s)"
  shows "non_english_group (remove_non_english_sub s) = None"
proof (rule non_english_group_line [of _ s])
  show l: "line_rest (remove_non_english_sub s) = line_rest s"
    using non_english_sub_facts [of s] assms(2) by simp
  show "non_english_group s = None" by fact
  have w: "10 \<notin> set (ascii ''!__!'')" "ascii ''!__!'' \<noteq> []" by (simp_all add: ascii_def)
  from assms(1) have "annotation_token s = None" by (simp add: non_english_group_none)
  from this [unfolded annotation_token_none]
  show "annotation_token (remove_non_english_sub s) = None"
  proof
    assume "strip_prefix (ascii ''!--!'') s = None"
    then have "strip_prefix (ascii ''!--!'') (line_rest s) = None"
      by (simp only: open_identifier_line)
    then have "strip_prefix (ascii ''!--!'') (line_rest (remove_non_english_sub s)) = None"
      by (simp only: l)
    then have "strip_prefix (ascii ''!--!'') (remove_non_english_sub s) = None"
      by (simp only: open_identifier_line)
    then show ?thesis by (simp add: annotation_token_def)
  next
    assume "\<exists>r0. s = ascii ''!--!'' @ r0 \<and> \<not> is_in (ascii ''!__!'') r0"
    then obtain r0 where s: "s = ascii ''!--!'' @ r0" and n: "\<not> is_in (ascii ''!__!'') r0"
      by blast
    have "remove_non_english_sub s = ascii ''!--!'' @ remove_non_english_sub r0"
      unfolding s by (rule non_english_sub_unclosed [OF n]) (use assms(2) s in simp)
    moreover have "\<not> is_in (ascii ''!__!'') (remove_non_english_sub r0)"
      using non_english_sub_no_new [OF w, of "[]" r0] n by auto
    ultimately show ?thesis unfolding annotation_token_none by blast
  qed
qed

lemma non_english_sub_idempotent:
  "remove_non_english_sub (remove_non_english_sub s) = remove_non_english_sub s"
proof (induction s rule: remove_non_english_sub.induct)
  case 1
  then show ?case by simp
next
  case (2 c cs)
  show ?case
  proof (cases "non_english_group (c # cs)")
    case (Some p)
    obtain t r where p: "p = (t, r)" by (cases p)
    note g = Some [unfolded p]
    from non_english_group_shape [OF g]
    have sh: "c # cs = t @ r" "t \<noteq> []"
      and again: "\<And>x. non_english_group (t @ x) = Some (t, x)" by auto
    have "remove_non_english_sub (t @ x) = t @ remove_non_english_sub x" for x
      by (rule non_english_sub_through [OF sh(2) again])
    with "2.IH"(3) [OF g refl] g show ?thesis by simp
  next
    case None
    show ?thesis
    proof (cases "list_ex (\<lambda>x. 127 < x) (line_rest (c # cs))")
      case True
      from "2.IH"(1) [OF None True] None True show ?thesis by simp
    next
      case False
      have e: "remove_non_english_sub (c # cs) = c # remove_non_english_sub cs"
        using None False by simp
      have l: "line_rest (c # remove_non_english_sub cs) = line_rest (c # cs)"
        using non_english_sub_facts [of "c # cs"] False unfolding e by simp
      have n: "non_english_group (c # remove_non_english_sub cs) = None"
        using non_english_group_none_kept [OF None False] unfolding e .
      show ?thesis
        unfolding e using n False l "2.IH"(2) [OF None False] by simp
    qed
  qed
qed

text \<open>A text that the substitution leaves alone is left alone after the layout normaliser.\<close>

lemma non_english_sub_fixed_after_newlines:
  "no_break u \<Longrightarrow> remove_non_english_sub u = u \<Longrightarrow>
   remove_non_english_sub (remove_extra_newlines u) = remove_extra_newlines u"
proof (induction "length u" arbitrary: u rule: less_induct)
  case less
  note nb = less.prems(1) and fx = less.prems(2)
  show ?case
  proof (cases u)
    case Nil
    then show ?thesis by simp
  next
    case (Cons c cs)
    show ?thesis
    proof (cases "c = 10")
      case True
      from newlines_decomposition [OF nb] obtain k x where
        u: "u = replicate k 10 @ x" and px: "newline_or_br x = None" and nx: "no_break x"
        and k: "k \<noteq> 0"
        using Cons True by auto
      have "remove_non_english_sub x = x"
        using fx unfolding u non_english_sub_newlines by simp
      moreover have "length x < length u" using k unfolding u by simp
      ultimately have ih: "remove_non_english_sub (remove_extra_newlines x) = remove_extra_newlines x"
        using less.hyps nx by blast
      show ?thesis
        unfolding u remove_extra_newlines_run_of_newlines [OF px] non_english_sub_newlines ih ..
    next
      case c: False
      show ?thesis
      proof (cases "non_english_group u")
        case (Some p)
        obtain t r where p: "p = (t, r)" by (cases p)
        note g = Some [unfolded p]
        from non_english_group_shape [OF g]
        have sh: "u = t @ r" "t \<noteq> []"
          and again: "\<And>x. non_english_group (t @ x) = Some (t, x)" by auto
        have nr: "no_break r" using nb no_break_append [of t r] sh(1) by simp
        have "remove_non_english_sub r = r"
          using fx non_english_sub_through [OF sh(2) again, of r] sh(1) by simp
        moreover have "length r < length u" using sh(1,2) by simp
        ultimately have ih:
          "remove_non_english_sub (remove_extra_newlines r) = remove_extra_newlines r"
          using less.hyps nr by blast
        from non_english_group_after_newlines [OF nb g] obtain t' where
          t': "remove_extra_newlines u = t' @ remove_extra_newlines r" "t' \<noteq> []"
            "\<And>x. non_english_group (t' @ x) = Some (t', x)" by blast
        show ?thesis
          unfolding t'(1) using non_english_sub_through [OF t'(2,3)] ih by simp
      next
        case None
        show ?thesis
        proof (cases "list_ex (\<lambda>x. 127 < x) (line_rest u)")
          case True
          have "remove_non_english_sub u = remove_non_english_sub (after_line u)"
            using None True unfolding Cons by simp
          moreover have "length (remove_non_english_sub (after_line u)) \<le> length (after_line u)"
            using non_english_sub_facts [of "after_line u"] by simp
          moreover have "length (after_line u) < length u"
            using c unfolding Cons after_line_def
            using dropWhile_length_le [of "\<lambda>x. x \<noteq> 10" cs] by simp
          ultimately have "length (remove_non_english_sub u) < length u" by simp
          with fx show ?thesis by simp
        next
          case False
          have e: "remove_non_english_sub u = c # remove_non_english_sub cs"
            using None False unfolding Cons by simp
          with fx have fc: "remove_non_english_sub cs = cs" unfolding Cons by simp
          have nc: "no_break cs" using nb no_break_Cons unfolding Cons by blast
          have ih: "remove_non_english_sub (remove_extra_newlines cs) = remove_extra_newlines cs"
            using less.hyps [of cs] nc fc unfolding Cons by simp
          have r: "remove_extra_newlines u = c # remove_extra_newlines cs"
            unfolding Cons by (rule remove_extra_newlines_char) (use nb c Cons in simp_all)
          have l: "line_rest (c # remove_extra_newlines cs) = line_rest u"
            using remove_extra_newlines_line_rest [OF nb] unfolding r .
          have n: "non_english_group (c # remove_extra_newlines cs) = None"
            using non_english_group_none_after_newlines [OF nb None] unfolding r .
          show ?thesis
            unfolding r using n l False ih by simp
        qed
      qed
    qed
  qed
qed

lemma string_formatter_english_idempotent:
  assumes "no_break s"
  shows "string_formatter (ascii ''English'') (string_formatter (ascii ''English'') s)
     = string_formatter (ascii ''English'') s"
proof -
  let ?t = "remove_non_english_sub s"
  have nb: "no_break ?t" by (rule non_english_sub_no_break [OF assms])
  have "remove_non_english_sub (remove_extra_newlines ?t) = remove_extra_newlines ?t"
    by (rule non_english_sub_fixed_after_newlines [OF nb non_english_sub_idempotent])
  moreover have "remove_extra_newlines (remove_extra_newlines ?t) = remove_extra_newlines ?t"
    by (rule remove_extra_newlines_idempotent [OF nb])
  ultimately show ?thesis by (simp add: string_formatter_def)
qed

subsection \<open>Keeping the lines that are not English\<close>

lemma english_sub_through:
  "t \<noteq> [] \<Longrightarrow> english_group (t @ x) = Some (t, x) \<Longrightarrow>
   remove_english_sub b (t @ x) = t @ remove_english_sub False x"
  by (cases t) auto

lemma english_sub_newline: "remove_english_sub b (10 # y) = 10 # remove_english_sub True y"
  by (simp add: english_group_newline)

lemma english_sub_newlines:
  "remove_english_sub b (replicate (Suc k) 10 @ x) = replicate (Suc k) 10 @ remove_english_sub True x"
  by (induction k arbitrary: b)
    (simp_all only: replicate.simps append.simps english_sub_newline)

lemma english_sub_facts:
  "length (remove_english_sub b s) \<le> length s
   \<and> (\<not> (b \<and> list_ex is_ascii_letter (line_rest s))
        \<longrightarrow> line_rest (remove_english_sub b s) = line_rest s)"
proof (induction b s rule: remove_english_sub.induct)
  case (1 bol)
  then show ?case by simp
next
  case (2 bol c cs)
  show ?case
  proof (cases "english_group (c # cs)")
    case (Some p)
    obtain t r where p: "p = (t, r)" by (cases p)
    note g = Some [unfolded p]
    from english_group_shape [OF g] have sh: "c # cs = t @ r" "t \<noteq> []" by auto
    from "2.IH"(3) [OF g refl] have ih: "length (remove_english_sub False r) \<le> length r"
      "line_rest (remove_english_sub False r) = line_rest r"
      by auto
    have e: "remove_english_sub bol (c # cs) = t @ remove_english_sub False r"
      using g by simp
    have 1: "length (remove_english_sub bol (c # cs)) \<le> length (c # cs)"
      unfolding e using ih(1) by (subst sh(1)) simp
    have 2: "line_rest (remove_english_sub bol (c # cs)) = line_rest (c # cs)"
    proof (cases "10 \<in> set t")
      case True
      show ?thesis unfolding e by (subst sh(1)) (simp only: line_rest_through [OF True])
    next
      case False
      have l: "line_rest (c # cs) = t @ line_rest r"
        by (subst sh(1)) (rule line_rest_append [OF False])
      show ?thesis unfolding e l by (simp add: line_rest_append [OF False] ih(2))
    qed
    from 1 2 show ?thesis by blast
  next
    case None
    show ?thesis
    proof (cases "bol \<and> list_ex is_ascii_letter (line_rest (c # cs))")
      case True
      from "2.IH"(1) [OF None True] after_line_length [of "c # cs"] None True
      show ?thesis by simp
    next
      case False
      from "2.IH"(2) [OF None False]
      have ih: "length (remove_english_sub (c = 10) cs) \<le> length cs"
        "\<not> (c = 10 \<and> list_ex is_ascii_letter (line_rest cs))
           \<longrightarrow> line_rest (remove_english_sub (c = 10) cs) = line_rest cs"
        by auto
      have e: "remove_english_sub bol (c # cs) = c # remove_english_sub (c = 10) cs"
        using None False by auto
      show ?thesis
      proof (cases "c = 10")
        case True
        with ih show ?thesis unfolding e by simp
      next
        case c: False
        with ih show ?thesis unfolding e by (simp add: line_rest_other)
      qed
    qed
  qed
qed

lemma english_sub_no_new:
  "10 \<notin> set w \<Longrightarrow> w \<noteq> [] \<Longrightarrow> is_in w (p @ remove_english_sub b s) \<Longrightarrow> is_in w (p @ s)"
proof (induction b s arbitrary: p rule: remove_english_sub.induct)
  case (1 bol)
  then show ?case by simp
next
  case (2 bol c cs)
  note w = "2.prems"(1,2)
  show ?case
  proof (cases "english_group (c # cs)")
    case (Some q)
    obtain t r where q: "q = (t, r)" by (cases q)
    note g = Some [unfolded q]
    from english_group_shape [OF g] have sh: "c # cs = t @ r" by auto
    from "2.prems"(3) g have "is_in w ((p @ t) @ remove_english_sub False r)" by simp
    from "2.IH"(3) [OF g refl w this] show ?thesis by (subst sh) simp
  next
    case None
    show ?thesis
    proof (cases "bol \<and> list_ex is_ascii_letter (line_rest (c # cs))")
      case True
      with "2.prems"(3) None
      have "is_in w (p @ remove_english_sub False (after_line (c # cs)))" by simp
      from "2.IH"(1) [OF None True w this] show ?thesis by (rule is_in_skip_line [OF w])
    next
      case False
      with "2.prems"(3) None have "is_in w ((p @ [c]) @ remove_english_sub (c = 10) cs)"
        by auto
      from "2.IH"(2) [OF None False w this] show ?thesis by simp
    qed
  qed
qed

lemma english_sub_no_break: "no_break s \<Longrightarrow> no_break (remove_english_sub b s)"
  using english_sub_no_new [of "ascii ''<br''" "[]" b s]
  by (auto simp: no_break_def ascii_def)

lemma english_group_other:
  "c \<noteq> 91 \<Longrightarrow> c \<noteq> 92 \<Longrightarrow> c \<noteq> 33 \<Longrightarrow> c \<noteq> 60 \<Longrightarrow> english_group (c # cs) = None"
  by (simp add: english_group_def orelse_def header_token_def escaped_newline_token_def
      escaped_u200_token_def annotation_token_def tag_token_def ascii_def)

lemma english_group_exclamation:
  "english_group (33 # cs) = annotation_token (33 # cs)"
  by (simp add: english_group_def orelse_def header_token_def escaped_newline_token_def
      escaped_u200_token_def tag_token_def split: option.splits)

lemma english_sub_unclosed:
  assumes "\<not> is_in (ascii ''!__!'') r0"
    and "\<not> (b \<and> list_ex is_ascii_letter (line_rest (ascii ''!--!'' @ r0)))"
  shows "remove_english_sub b (ascii ''!--!'' @ r0) = ascii ''!--!'' @ remove_english_sub False r0"
proof -
  have o: "ascii ''!--!'' = [33, 45, 45, 33]" by (simp add: ascii_def)
  have l: "\<not> (b \<and> list_ex is_ascii_letter (line_rest (33 # 45 # 45 # 33 # r0)))"
    using assms(2) by (simp add: o)
  have "annotation_token (ascii ''!--!'' @ r0) = None"
    unfolding annotation_token_none using assms(1) by blast
  then have g0: "english_group (33 # 45 # 45 # 33 # r0) = None"
    by (simp add: o english_group_exclamation)
  have g1: "english_group (45 # 45 # 33 # r0) = None"
    "english_group (45 # 33 # r0) = None"
    by (simp_all add: english_group_other)
  have g3: "english_group (33 # r0) = None"
    using annotation_token_unclosed [OF assms(1)] by (simp add: english_group_exclamation)
  have "remove_english_sub b (33 # 45 # 45 # 33 # r0)
      = 33 # remove_english_sub False (45 # 45 # 33 # r0)"
    using g0 l by auto
  also have "remove_english_sub False (45 # 45 # 33 # r0) = 45 # 45 # 33 # remove_english_sub False r0"
    using g1 g3 by simp
  finally show ?thesis unfolding o by simp
qed

lemma english_group_none_kept:
  assumes "english_group s = None" "\<not> (b \<and> list_ex is_ascii_letter (line_rest s))"
  shows "english_group (remove_english_sub b s) = None"
proof (rule english_group_line [of _ s])
  show l: "line_rest (remove_english_sub b s) = line_rest s"
    using english_sub_facts [of b s] assms(2) by simp
  show "english_group s = None" by fact
  have w: "10 \<notin> set (ascii ''!__!'')" "ascii ''!__!'' \<noteq> []" by (simp_all add: ascii_def)
  from assms(1) have "annotation_token s = None" by (simp add: english_group_none)
  from this [unfolded annotation_token_none]
  show "annotation_token (remove_english_sub b s) = None"
  proof
    assume "strip_prefix (ascii ''!--!'') s = None"
    then have "strip_prefix (ascii ''!--!'') (line_rest s) = None"
      by (simp only: open_identifier_line)
    then have "strip_prefix (ascii ''!--!'') (line_rest (remove_english_sub b s)) = None"
      by (simp only: l)
    then have "strip_prefix (ascii ''!--!'') (remove_english_sub b s) = None"
      by (simp only: open_identifier_line)
    then show ?thesis by (simp add: annotation_token_def)
  next
    assume "\<exists>r0. s = ascii ''!--!'' @ r0 \<and> \<not> is_in (ascii ''!__!'') r0"
    then obtain r0 where s: "s = ascii ''!--!'' @ r0" and n: "\<not> is_in (ascii ''!__!'') r0"
      by blast
    have "remove_english_sub b s = ascii ''!--!'' @ remove_english_sub False r0"
      unfolding s by (rule english_sub_unclosed [OF n]) (use assms(2) s in simp)
    moreover have "\<not> is_in (ascii ''!__!'') (remove_english_sub False r0)"
      using english_sub_no_new [OF w, of "[]" False r0] n by auto
    ultimately show ?thesis unfolding annotation_token_none by blast
  qed
qed

lemma english_sub_idempotent:
  "remove_english_sub b (remove_english_sub b s) = remove_english_sub b s"
proof (induction b s rule: remove_english_sub.induct)
  case (1 bol)
  then show ?case by simp
next
  case (2 bol c cs)
  show ?case
  proof (cases "english_group (c # cs)")
    case (Some p)
    obtain t r where p: "p = (t, r)" by (cases p)
    note g = Some [unfolded p]
    from english_group_shape [OF g]
    have sh: "c # cs = t @ r" "t \<noteq> []"
      and again: "\<And>x. english_group (t @ x) = Some (t, x)" by auto
    have "remove_english_sub b' (t @ x) = t @ remove_english_sub False x" for x b'
      by (rule english_sub_through [OF sh(2) again])
    with "2.IH"(3) [OF g refl] g show ?thesis by simp
  next
    case None
    show ?thesis
    proof (cases "bol \<and> list_ex is_ascii_letter (line_rest (c # cs))")
      case True
      have e: "remove_english_sub bol (c # cs) = remove_english_sub False (after_line (c # cs))"
        using None True by simp
      note ih = "2.IH"(1) [OF None True]
      from after_line_cases [of "c # cs"] show ?thesis
      proof
        assume "after_line (c # cs) = []"
        then show ?thesis unfolding e by simp
      next
        assume "\<exists>r. after_line (c # cs) = 10 # r"
        then obtain r where r: "after_line (c # cs) = 10 # r" by blast
        have "remove_english_sub bol (10 # remove_english_sub True r)
            = remove_english_sub False (10 # remove_english_sub True r)"
          by (simp only: english_sub_newline)
        with ih show ?thesis unfolding e r by (simp only: english_sub_newline)
      qed
    next
      case False
      have e: "remove_english_sub bol (c # cs) = c # remove_english_sub (c = 10) cs"
        using None False by auto
      have l: "line_rest (c # remove_english_sub (c = 10) cs) = line_rest (c # cs)"
        using english_sub_facts [of bol "c # cs"] False unfolding e by blast
      have n: "english_group (c # remove_english_sub (c = 10) cs) = None"
        using english_group_none_kept [OF None False] unfolding e .
      have "remove_english_sub bol (c # remove_english_sub (c = 10) cs)
          = c # remove_english_sub (c = 10) (remove_english_sub (c = 10) cs)"
        using n False l by auto
      then show ?thesis
        unfolding e using "2.IH"(2) [OF None False] by simp
    qed
  qed
qed

lemma english_sub_fixed_after_newlines:
  "no_break u \<Longrightarrow> remove_english_sub b u = u \<Longrightarrow>
   remove_english_sub b (remove_extra_newlines u) = remove_extra_newlines u"
proof (induction "length u" arbitrary: u b rule: less_induct)
  case less
  note nb = less.prems(1) and fx = less.prems(2)
  show ?case
  proof (cases u)
    case Nil
    then show ?thesis by simp
  next
    case (Cons c cs)
    show ?thesis
    proof (cases "c = 10")
      case True
      from newlines_decomposition [OF nb] obtain k x where
        u: "u = replicate k 10 @ x" and px: "newline_or_br x = None" and nx: "no_break x"
        and k: "k \<noteq> 0"
        using Cons True by auto
      obtain j where j: "k = Suc j" using k by (cases k) auto
      define k' where "k' = (if not_before_bracket x then min k 1 else min k 2)"
      have "0 < k'" using k unfolding k'_def by simp
      then obtain j' where j': "k' = Suc j'" using gr0_implies_Suc by blast
      have "remove_english_sub True x = x"
        using fx unfolding u j english_sub_newlines by simp
      moreover have "length x < length u" using k unfolding u by simp
      ultimately have ih:
        "remove_english_sub True (remove_extra_newlines x) = remove_extra_newlines x"
        using less.hyps nx by blast
      have r: "remove_extra_newlines u = replicate (Suc j') 10 @ remove_extra_newlines x"
        unfolding u remove_extra_newlines_run_of_newlines [OF px] k'_def [symmetric] j' ..
      show ?thesis unfolding r english_sub_newlines ih ..
    next
      case c: False
      show ?thesis
      proof (cases "english_group u")
        case (Some p)
        obtain t r where p: "p = (t, r)" by (cases p)
        note g = Some [unfolded p]
        from english_group_shape [OF g]
        have sh: "u = t @ r" "t \<noteq> []"
          and again: "\<And>x. english_group (t @ x) = Some (t, x)" by auto
        have nr: "no_break r" using nb no_break_append [of t r] sh(1) by simp
        have "remove_english_sub False r = r"
          using fx english_sub_through [OF sh(2) again, of b r] sh(1) by simp
        moreover have "length r < length u" using sh(1,2) by simp
        ultimately have ih:
          "remove_english_sub False (remove_extra_newlines r) = remove_extra_newlines r"
          using less.hyps nr by blast
        from english_group_after_newlines [OF nb g] obtain t' where
          t': "remove_extra_newlines u = t' @ remove_extra_newlines r" "t' \<noteq> []"
            "\<And>x. english_group (t' @ x) = Some (t', x)" by blast
        show ?thesis
          unfolding t'(1) using english_sub_through [OF t'(2,3)] ih by simp
      next
        case None
        show ?thesis
        proof (cases "b \<and> list_ex is_ascii_letter (line_rest u)")
          case True
          have "remove_english_sub b u = remove_english_sub False (after_line u)"
            using None True unfolding Cons by simp
          moreover have "length (remove_english_sub False (after_line u)) \<le> length (after_line u)"
            using english_sub_facts [of False "after_line u"] by simp
          moreover have "length (after_line u) < length u"
            using c unfolding Cons after_line_def
            using dropWhile_length_le [of "\<lambda>x. x \<noteq> 10" cs] by simp
          ultimately have "length (remove_english_sub b u) < length u" by simp
          with fx show ?thesis by simp
        next
          case False
          have e: "remove_english_sub b u = c # remove_english_sub False cs"
            using None False c unfolding Cons by auto
          with fx have fc: "remove_english_sub False cs = cs" unfolding Cons by simp
          have nc: "no_break cs" using nb no_break_Cons unfolding Cons by blast
          have ih: "remove_english_sub False (remove_extra_newlines cs) = remove_extra_newlines cs"
            using less.hyps [of cs False] nc fc unfolding Cons by simp
          have r: "remove_extra_newlines u = c # remove_extra_newlines cs"
            unfolding Cons by (rule remove_extra_newlines_char) (use nb c Cons in simp_all)
          have l: "line_rest (c # remove_extra_newlines cs) = line_rest u"
            using remove_extra_newlines_line_rest [OF nb] unfolding r .
          have n: "english_group (c # remove_extra_newlines cs) = None"
            using english_group_none_after_newlines [OF nb None] unfolding r .
          show ?thesis
            unfolding r using n l False ih c by auto
        qed
      qed
    qed
  qed
qed

lemma string_formatter_non_english_idempotent:
  assumes "no_break s"
  shows "string_formatter (ascii ''Non-English'') (string_formatter (ascii ''Non-English'') s)
     = string_formatter (ascii ''Non-English'') s"
proof -
  let ?t = "remove_english_sub True s"
  have nb: "no_break ?t" by (rule english_sub_no_break [OF assms])
  have "remove_english_sub True (remove_extra_newlines ?t) = remove_extra_newlines ?t"
    by (rule english_sub_fixed_after_newlines [OF nb english_sub_idempotent])
  moreover have "remove_extra_newlines (remove_extra_newlines ?t) = remove_extra_newlines ?t"
    by (rule remove_extra_newlines_idempotent [OF nb])
  moreover have "ascii ''Non-English'' \<noteq> ascii ''English''" by (simp add: ascii_def)
  ultimately show ?thesis by (simp add: string_formatter_def)
qed

text \<open>The formatter of every preference, run twice, gives what it gives run once.\<close>

lemma string_formatter_idempotent:
  assumes "no_break s"
  shows "string_formatter lyrics_language (string_formatter lyrics_language s)
     = string_formatter lyrics_language s"
proof (cases "lyrics_language = ascii ''English''")
  case True
  with string_formatter_english_idempotent [OF assms] show ?thesis by simp
next
  case False
  note e = False
  show ?thesis
  proof (cases "lyrics_language = ascii ''Non-English''")
    case True
    with string_formatter_non_english_idempotent [OF assms] show ?thesis by simp
  next
    case False
    with e remove_extra_newlines_idempotent [OF assms] show ?thesis
      by (simp add: string_formatter_def)
  qed
qed

subsection \<open>Documents\<close>

text \<open>
  Every string of the tree that the splitter formats (no comment, not blank) is free of the
  text \<open><br\<close>.
\<close>

fun no_break_text :: "node \<Rightarrow> bool" and no_break_text_list :: "node list \<Rightarrow> bool" where
  "no_break_text (Str k s) = (k = Comment \<or> strip s = [] \<or> no_break s)"
| "no_break_text (Tag n a kids) = no_break_text_list kids"
| "no_break_text_list [] = True"
| "no_break_text_list (x # xs) = (no_break_text x \<and> no_break_text_list xs)"

lemma string_formatter_both:
  "lyrics_language \<noteq> ascii ''English'' \<Longrightarrow> lyrics_language \<noteq> ascii ''Non-English'' \<Longrightarrow>
   string_formatter lyrics_language s = remove_extra_newlines s"
  by (simp add: string_formatter_def)

lemma format_strings_twice:
  assumes "\<And>s. no_break s \<Longrightarrow> f (f s) = f s"
  shows "no_break_text x \<Longrightarrow> format_strings f (format_strings f x) = format_strings f x"
    and "no_break_text_list xs \<Longrightarrow>
      map (format_strings f) (map (format_strings f) xs) = map (format_strings f) xs"
  by (induction x and xs rule: no_break_text_no_break_text_list.induct) (auto simp: assms)

text \<open>
  Claim C6, as the code has it. Take any document in which no formatted string holds the
  text \<open><br\<close>, and any language preference. Then \<open>format_language\<close> returns a document on
  which a second run with the same preference changes nothing. The strings may hold tags,
  annotation identifiers, section headers, newlines and text of both languages.
\<close>

theorem format_language_idempotent_without_break:
  assumes "no_break_text_list kids"
  shows "\<exists>doc. format_language html_parser (TagObj n a kids) lyrics_language = Inr doc
    \<and> format_language html_parser doc lyrics_language = Inr doc"
proof -
  have "map (format_strings (string_formatter lyrics_language))
      (map (format_strings (string_formatter lyrics_language)) kids)
    = map (format_strings (string_formatter lyrics_language)) kids"
    using assms
    by (rule format_strings_twice(2) [rotated]) (rule string_formatter_idempotent)
  then show ?thesis by simp
qed

text \<open>
  A document with an English line, a run of newlines, a Persian line, an annotation between
  its identifiers with a run of newlines inside, a tag written as text, a comment that holds
  break tags, and a blank string.
\<close>

definition sample_lyrics :: ustr where
  "sample_lyrics =
     ascii ''Hey!'' @ [10, 10, 10] @ [1587, 1604] @ [10] @ ascii ''!--!note'' @ [10, 10]
       @ ascii ''!__!'' @ [10] @ ascii ''<i>x</i> y''"

definition sample_lyrics_english :: ustr where
  "sample_lyrics_english =
     ascii ''Hey!'' @ [10] @ ascii ''!--!note'' @ [10] @ ascii ''!__!'' @ [10]
       @ ascii ''<i>x</i> y''"

definition sample_document :: "ustr \<Rightarrow> node list" where
  "sample_document s =
     [Tag (ascii ''p'') [] [Str NavigableString s],
      Str Comment (ascii ''<br><br>''),
      Str NavigableString [32, 10]]"

lemma sample_lyrics_no_break: "no_break sample_lyrics"
  by (simp add: no_break_def sample_lyrics_def ascii_def startswith_def)

lemma sample_lyrics_not_blank: "strip sample_lyrics \<noteq> []"
  by (simp add: strip_def sample_lyrics_def ascii_def is_space_def)

lemma sample_blank: "strip [32, 10] = []"
  by (simp add: strip_def is_space_def)

lemma sample_lyrics_formatted:
  "string_formatter (ascii ''English'') sample_lyrics = sample_lyrics_english"
  by (simp add: string_formatter_def sample_lyrics_def sample_lyrics_english_def ascii_def
      non_english_group_def orelse_def header_token_def escaped_newline_token_def
      annotation_token_def tag_token_def line_rest_def after_line_def
      newline_run.simps newline_or_br_def br_tag_def not_before_bracket_def is_space_def)

theorem format_language_idempotent_without_break_witness:
  "no_break_text_list (sample_document sample_lyrics)
   \<and> format_language sample_parser
        (TagObj (ascii ''[document]'') [] (sample_document sample_lyrics)) (ascii ''English'')
      = Inr (TagObj (ascii ''[document]'') [] (sample_document sample_lyrics_english))
   \<and> format_language sample_parser
        (TagObj (ascii ''[document]'') [] (sample_document sample_lyrics_english))
        (ascii ''English'')
      = Inr (TagObj (ascii ''[document]'') [] (sample_document sample_lyrics_english))"
proof -
  have h: "no_break_text_list (sample_document sample_lyrics)"
    by (simp add: sample_document_def sample_lyrics_no_break sample_blank)
  have f: "format_language sample_parser
        (TagObj (ascii ''[document]'') [] (sample_document sample_lyrics)) (ascii ''English'')
      = Inr (TagObj (ascii ''[document]'') [] (sample_document sample_lyrics_english))"
    by (simp add: sample_document_def sample_lyrics_not_blank sample_blank
        sample_lyrics_formatted)
  from format_language_idempotent_without_break
    [OF h, of sample_parser "ascii ''[document]''" "[]" "ascii ''English''"]
  obtain doc where d: "format_language sample_parser
        (TagObj (ascii ''[document]'') [] (sample_document sample_lyrics)) (ascii ''English'')
      = Inr doc"
    "format_language sample_parser doc (ascii ''English'') = Inr doc"
    by blast
  from d(1) f have "doc = TagObj (ascii ''[document]'') [] (sample_document sample_lyrics_english)"
    by simp
  with d(2) h f show ?thesis by simp
qed

lemma break_example_once:
  "remove_extra_newlines (ascii ''a'' @ [10] @ ascii ''<br'' @ [10] @ ascii ''<br>>'')
     = ascii ''a'' @ [10] @ ascii ''<br'' @ [10] @ ascii ''>''"
  by (simp add: ascii_def newline_run.simps newline_or_br_def br_tag_def not_before_bracket_def
      is_space_def)

lemma break_example_twice:
  "remove_extra_newlines (ascii ''a'' @ [10] @ ascii ''<br'' @ [10] @ ascii ''>'')
     = ascii ''a'' @ [10]"
  by (simp add: ascii_def newline_run.simps newline_or_br_def br_tag_def not_before_bracket_def
      is_space_def)

lemma break_example_not_blank:
  "strip (ascii ''a'' @ [10] @ ascii ''<br'' @ [10] @ ascii ''<br>>'') \<noteq> []"
  "strip (ascii ''a'' @ [10] @ ascii ''<br'' @ [10] @ ascii ''>'') \<noteq> []"
  by (simp_all add: strip_def ascii_def is_space_def)

text \<open>
  Claim C6, as stated, fails for a document with the one string \<open>"a\n<br\n<br>>"\<close> and a
  preference that keeps both languages. The first run replaces the run \<open>"\n<br>"\<close> by a
  newline, which leaves \<open>"a\n<br\n>"\<close>; there the newline and the break tag
  \<open>"<br\n>"\<close> form a new run, and the second run leaves \<open>"a\n"\<close>.
\<close>

theorem format_language_not_idempotent_counterexample:
  "format_language sample_parser
     (TagObj (ascii ''[document]'') []
        [Str NavigableString (ascii ''a'' @ [10] @ ascii ''<br'' @ [10] @ ascii ''<br>>'')])
     (ascii ''English + Non-English'')
   = Inr (TagObj (ascii ''[document]'') []
        [Str NavigableString (ascii ''a'' @ [10] @ ascii ''<br'' @ [10] @ ascii ''>'')])
   \<and> format_language sample_parser
     (TagObj (ascii ''[document]'') []
        [Str NavigableString (ascii ''a'' @ [10] @ ascii ''<br'' @ [10] @ ascii ''>'')])
     (ascii ''English + Non-English'')
   = Inr (TagObj (ascii ''[document]'') [] [Str NavigableString (ascii ''a'' @ [10])])"
proof -
  have l: "ascii ''English + Non-English'' \<noteq> ascii ''English''"
    "ascii ''English + Non-English'' \<noteq> ascii ''Non-English''"
    by (simp_all add: ascii_def)
  show ?thesis
    by (simp only: format_language.simps format_strings.simps list.map
        string_formatter_both [OF l] break_example_once break_example_twice
        break_example_not_blank)
      simp
qed

end
